theory Spec2Isabelle
  imports Main "HOL-Library.Word" "HOL-Library.Sublist"
begin

text \<open>
  KeySight keeps surveillance evidence in the browser. Its core, the file
  \<open>src/utils/secureStorage.ts\<close>, holds two classes: \<open>SecureStorage\<close>, an append-only
  chain of hash-linked blocks whose payloads are stored encrypted, with the projector
  \<open>getAllItems\<close> that replays the chain into the visible items; and \<open>InputValidator\<close>,
  which canonicalises a string, scans it for attack signatures and checks it against the
  schema of its context, logging schema violations into the ledger. This theory embeds
  both, method by method, and proves properties of them.
\<close>

section \<open>JavaScript strings and numbers\<close>

text \<open>
  A JavaScript string is a sequence of UTF-16 code units; \<open>length\<close>, \<open>substring\<close> and
  regular expressions without the \<open>u\<close> flag all work on code units. A code unit is
  modelled as a natural number, a string as the list of its code units. \<open>js\<close> turns an
  ASCII literal of the theory into such a string.
\<close>

type_synonym jschar = nat
type_synonym jsstring = "jschar list"
type_synonym byte = "8 word"

definition js :: "string \<Rightarrow> jsstring" where
  "js s = map of_char s"

text \<open>Decimal rendering of a non-negative integer, as a template literal prints it.\<close>

fun dec :: "nat \<Rightarrow> jsstring" where
  "dec n = (if n < 10 then [48 + n] else dec (n div 10) @ [48 + n mod 10])"

declare dec.simps [simp del]

text \<open>\<open>parseInt(s, 10)\<close> on a string that already matched \<open>/^[0-9]+$/\<close>.\<close>

definition parseInt10 :: "jsstring \<Rightarrow> nat" where
  "parseInt10 s = foldl (\<lambda>acc c. 10 * acc + (c - 48)) 0 s"

subsection \<open>Character classes\<close>

definition in_range :: "jschar \<Rightarrow> jschar \<Rightarrow> jschar \<Rightarrow> bool" where
  "in_range lo hi c = (lo \<le> c \<and> c \<le> hi)"

definition is_digit :: "jschar \<Rightarrow> bool" where
  "is_digit c = in_range 48 57 c"

definition is_upper :: "jschar \<Rightarrow> bool" where
  "is_upper c = in_range 65 90 c"

definition is_lower :: "jschar \<Rightarrow> bool" where
  "is_lower c = in_range 97 122 c"

text \<open>\<open>\w\<close>: the word characters that \<open>\b\<close> looks at.\<close>

definition is_word_char :: "jschar \<Rightarrow> bool" where
  "is_word_char c = (is_digit c \<or> is_upper c \<or> is_lower c \<or> c = 95)"

text \<open>The line terminators, which \<open>.\<close> does not match.\<close>

definition is_line_terminator :: "jschar \<Rightarrow> bool" where
  "is_line_terminator c = (c = 10 \<or> c = 13 \<or> c = 8232 \<or> c = 8233)"

text \<open>
  \<open>\s\<close> and the characters \<open>trim()\<close> removes: ECMAScript's WhiteSpace and
  LineTerminator code points.
\<close>

definition is_white_space :: "jschar \<Rightarrow> bool" where
  "is_white_space c =
     (in_range 9 13 c \<or> c = 32 \<or> c = 160 \<or> c = 5760 \<or> in_range 8192 8202 c \<or>
      c = 8232 \<or> c = 8233 \<or> c = 8239 \<or> c = 8287 \<or> c = 12288 \<or> c = 65279)"

text \<open>
  The case folding of the \<open>i\<close> flag, for the ASCII characters the patterns of this program
  are written in: a code unit outside ASCII never folds to an ASCII one.
\<close>

definition fold_case :: "jschar \<Rightarrow> jschar" where
  "fold_case c = (if is_lower c then c - 32 else c)"

definition trim :: "jsstring \<Rightarrow> jsstring" where
  "trim s = rev (dropWhile is_white_space (rev (dropWhile is_white_space s)))"

section \<open>Regular expressions\<close>

text \<open>
  The fragment of JavaScript regular expressions that the validation layer uses:
  character classes, sequence, alternation, \<open>?\<close>, \<open>*\<close> and \<open>+\<close> on a class, the
  anchors and \<open>\b\<close>. A matcher state is the character before the current position (none
  at the start of the input) and the input that is left; \<open>rmatch r st\<close> lists every
  state in which a match of \<open>r\<close> that starts in \<open>st\<close> can end.
\<close>

type_synonym mstate = "jschar option \<times> jsstring"

datatype regex =
    Eps
  | Chr "jschar \<Rightarrow> bool"
  | Seq regex regex
  | Alt regex regex
  | Opt regex
  | Star "jschar \<Rightarrow> bool"
  | Plus "jschar \<Rightarrow> bool"
  | Bol
  | Eol
  | WordB

fun star_run :: "(jschar \<Rightarrow> bool) \<Rightarrow> mstate \<Rightarrow> mstate list" where
  "star_run P (p, []) = [(p, [])]"
| "star_run P (p, c # cs) = (p, c # cs) # (if P c then star_run P (Some c, cs) else [])"

definition word_before :: "mstate \<Rightarrow> bool" where
  "word_before st = (case fst st of None \<Rightarrow> False | Some c \<Rightarrow> is_word_char c)"

definition word_after :: "mstate \<Rightarrow> bool" where
  "word_after st = (case snd st of [] \<Rightarrow> False | c # _ \<Rightarrow> is_word_char c)"

fun rmatch :: "regex \<Rightarrow> mstate \<Rightarrow> mstate list" where
  "rmatch Eps st = [st]"
| "rmatch (Chr P) (p, []) = []"
| "rmatch (Chr P) (p, c # cs) = (if P c then [(Some c, cs)] else [])"
| "rmatch (Seq a b) st = concat (map (rmatch b) (rmatch a st))"
| "rmatch (Alt a b) st = rmatch a st @ rmatch b st"
| "rmatch (Opt a) st = rmatch a st @ [st]"
| "rmatch (Star P) st = star_run P st"
| "rmatch (Plus P) (p, []) = []"
| "rmatch (Plus P) (p, c # cs) = (if P c then star_run P (Some c, cs) else [])"
| "rmatch Bol st = (if fst st = None then [st] else [])"
| "rmatch Eol st = (if snd st = [] then [st] else [])"
| "rmatch WordB st = (if word_before st \<noteq> word_after st then [st] else [])"

text \<open>Every position of the input at which a match may start.\<close>

fun starts :: "jschar option \<Rightarrow> jsstring \<Rightarrow> mstate list" where
  "starts p [] = [(p, [])]"
| "starts p (c # cs) = (p, c # cs) # starts (Some c) cs"

text \<open>\<open>RegExp.prototype.test\<close> of a pattern without the \<open>g\<close> and \<open>y\<close> flags.\<close>

definition regex_test :: "regex \<Rightarrow> jsstring \<Rightarrow> bool" where
  "regex_test r s = list_ex (\<lambda>st. rmatch r st \<noteq> []) (starts None s)"

subsection \<open>Building patterns\<close>

definition seqs :: "regex list \<Rightarrow> regex" where
  "seqs rs = foldr Seq rs Eps"

text \<open>A literal character, a literal string, and both under the \<open>i\<close> flag.\<close>

definition ch :: "jschar \<Rightarrow> regex" where
  "ch c = Chr (\<lambda>x. x = c)"

definition chi :: "jschar \<Rightarrow> regex" where
  "chi c = Chr (\<lambda>x. fold_case x = fold_case c)"

definition lit :: "jsstring \<Rightarrow> regex" where
  "lit s = seqs (map ch s)"

definition liti :: "jsstring \<Rightarrow> regex" where
  "liti s = seqs (map chi s)"

text \<open>The quantifier \<open>{n}\<close>.\<close>

definition times :: "nat \<Rightarrow> regex \<Rightarrow> regex" where
  "times n r = seqs (replicate n r)"

text \<open>\<open>.\<close>: any character but a line terminator.\<close>

definition dot :: "jschar \<Rightarrow> bool" where
  "dot c = (\<not> is_line_terminator c)"

section \<open>The platform\<close>

text \<open>
  The program runs on the browser's built-ins: Unicode normalisation and case mapping,
  the UTF-8 text encoder and decoder, Web Crypto (SHA-256, PBKDF2, AES-GCM) and the JSON
  serialiser and parser. They are not code of the repository, so the model takes them as
  a parameter: a record of functions. A JSON value stands for the JavaScript value it
  denotes; numbers are the integers (block indices and clock readings are), and an
  object lists its properties in order, each name once.
  \<open>aes_gcm_decrypt\<close> and \<open>json_parse\<close> return \<open>None\<close> where the built-in throws.
\<close>

datatype json =
    JNull
  | JBool bool
  | JNum int
  | JStr jsstring
  | JArr "json list"
  | JObj "(jsstring \<times> json) list"

record platform =
  normalize_nfkc :: "jsstring \<Rightarrow> jsstring"
  toUpperCase :: "jsstring \<Rightarrow> jsstring"
  utf8_encode :: "jsstring \<Rightarrow> byte list"
  utf8_decode :: "byte list \<Rightarrow> jsstring"
  digest_sha256 :: "byte list \<Rightarrow> byte list"
  pbkdf2_sha256 :: "byte list \<Rightarrow> byte list \<Rightarrow> nat \<Rightarrow> byte list"
  aes_gcm_encrypt :: "byte list \<Rightarrow> byte list \<Rightarrow> byte list \<Rightarrow> byte list"
  aes_gcm_decrypt :: "byte list \<Rightarrow> byte list \<Rightarrow> byte list \<Rightarrow> byte list option"
  json_stringify :: "json \<Rightarrow> jsstring"
  json_parse :: "jsstring \<Rightarrow> json option"

text \<open>
  What one call of \<open>append\<close> reads from the outside world: the clock (twice), twelve
  random bytes for the nonce, and the eight hexadecimal digits cut out of
  \<open>Math.random()\<close>.
\<close>

record env =
  now_block :: nat
  now_signature :: nat
  random_byte :: "nat \<Rightarrow> byte"
  random_hex :: jsstring

definition getRandomValues :: "env \<Rightarrow> nat \<Rightarrow> byte list" where
  "getRandomValues E n = map (random_byte E) [0..<n]"

text \<open>JavaScript's \<open>Map\<close>: insertion-ordered; \<open>set\<close> on a present key keeps its place.\<close>

fun Map_set :: "'k \<Rightarrow> 'v \<Rightarrow> ('k \<times> 'v) list \<Rightarrow> ('k \<times> 'v) list" where
  "Map_set k v [] = [(k, v)]"
| "Map_set k v ((k', v') # m) = (if k' = k then (k, v) # m else (k', v') # Map_set k v m)"

definition Map_get :: "('k \<times> 'v) list \<Rightarrow> 'k \<Rightarrow> 'v option" where
  "Map_get m k = map_of m k"

text \<open>Truthiness of a value, property lookup on it, and the properties a spread copies.\<close>

fun truthy :: "json \<Rightarrow> bool" where
  "truthy JNull = False"
| "truthy (JBool b) = b"
| "truthy (JNum n) = (n \<noteq> 0)"
| "truthy (JStr s) = (s \<noteq> [])"
| "truthy (JArr xs) = True"
| "truthy (JObj kvs) = True"

text \<open>
  \<open>get_prop v k\<close> is \<open>v.k\<close> for the names this program reads (\<open>type\<close>,
  \<open>targetIndex\<close>), which no string, array, number or boolean has; \<open>None\<close> is
  \<open>undefined\<close>.
\<close>

fun get_prop :: "json \<Rightarrow> jsstring \<Rightarrow> json option" where
  "get_prop (JObj kvs) k = map_of kvs k"
| "get_prop _ k = None"

fun own_props :: "json \<Rightarrow> (jsstring \<times> json) list" where
  "own_props (JObj kvs) = kvs"
| "own_props (JArr xs) = zip (map dec [0..<length xs]) xs"
| "own_props (JStr s) = zip (map dec [0..<length s]) (map (\<lambda>c. JStr [c]) s)"
| "own_props _ = []"

section \<open>The ledger: \<open>SecureStorage\<close>\<close>

datatype error =
    Error jsstring
  | TypeError
  | OperationError
  | SyntaxError
  | SecurityException jsstring

record StorageBlock =
  index :: int
  previousHash :: jsstring
  timestamp :: nat
  dataHash :: jsstring
  signature :: jsstring

record SecureStorage =
  chain :: "StorageBlock list"
  encryptionKey :: "byte list option"
  storage :: "(int \<times> byte list) list"

text \<open>The constructor: no block, no key, nothing stored.\<close>

definition new_SecureStorage :: SecureStorage where
  "new_SecureStorage = \<lparr>chain = [], encryptionKey = None, storage = []\<rparr>"

definition genesis :: "nat \<Rightarrow> StorageBlock" where
  "genesis now =
     \<lparr>index = 0, previousHash = js ''00000000000000000000000000000000'', timestamp = now,
      dataHash = js ''GENESIS_BLOCK'', signature = js ''SYSTEM_INIT''\<rparr>"

text \<open>
  \<open>initialize\<close>: derive the AES-GCM key from the master key with PBKDF2 (fixed salt,
  100000 iterations), then create the genesis block if the chain is empty.
\<close>

definition initialize ::
  "platform \<Rightarrow> nat \<Rightarrow> jsstring \<Rightarrow> SecureStorage \<Rightarrow> (error + bool) \<times> SecureStorage" where
  "initialize P now masterKey S =
     (let key = pbkdf2_sha256 P (utf8_encode P masterKey)
                  (utf8_encode P (js ''KEYSIGHT_LOCAL_SALT'')) 100000;
          S1 = S\<lparr>encryptionKey := Some key\<rparr>
      in (Inr True, if chain S1 = [] then S1\<lparr>chain := chain S1 @ [genesis now]\<rparr> else S1))"

definition hex_digit :: "nat \<Rightarrow> jschar" where
  "hex_digit d = (if d < 10 then 48 + d else 87 + d)"

definition hex_byte :: "byte \<Rightarrow> jsstring" where
  "hex_byte b = [hex_digit (unat b div 16), hex_digit (unat b mod 16)]"

definition sha256 :: "platform \<Rightarrow> jsstring \<Rightarrow> jsstring" where
  "sha256 P data = concat (map hex_byte (digest_sha256 P (utf8_encode P data)))"

definition getKey :: "SecureStorage \<Rightarrow> error + byte list" where
  "getKey S =
     (case encryptionKey S of
        None \<Rightarrow> Inl (Error (js ''Storage locked: Encryption key not initialized''))
      | Some key \<Rightarrow> Inr key)"

text \<open>\<open>JSON.stringify\<close> sees a block as the object of its five fields, in this order.\<close>

definition block_json :: "StorageBlock \<Rightarrow> json" where
  "block_json b =
     JObj [(js ''index'', JNum (index b)),
           (js ''previousHash'', JStr (previousHash b)),
           (js ''timestamp'', JNum (int (timestamp b))),
           (js ''dataHash'', JStr (dataHash b)),
           (js ''signature'', JStr (signature b))]"

text \<open>The text that is hashed and encrypted: a string as it is, anything else serialised.\<close>

definition dataString :: "platform \<Rightarrow> json \<Rightarrow> jsstring" where
  "dataString P data = (case data of JStr s \<Rightarrow> s | _ \<Rightarrow> json_stringify P data)"

text \<open>
  \<open>append\<close> is asynchronous: at each of its \<open>await\<close>s whatever else is scheduled may
  run. It touches the ledger in three places, with \<open>await\<close>s between them. Up to its
  first \<open>await\<close> it checks the key (raising before anything else when there is none) and
  reads the last block of the chain and the text to store; these stay in its locals
  \<open>key\<close>, \<open>prevBlock\<close> and \<open>dataString\<close>. With an empty chain \<open>prevBlock\<close> is
  \<open>undefined\<close>.
\<close>

record appending =
  held_key :: "byte list"
  held_prevBlock :: "StorageBlock option"
  held_dataString :: jsstring

definition append_begin :: "platform \<Rightarrow> json \<Rightarrow> SecureStorage \<Rightarrow> error + appending" where
  "append_begin P data S =
     (case getKey S of
        Inl e \<Rightarrow> Inl e
      | Inr key \<Rightarrow>
          Inr \<lparr>held_key = key,
               held_prevBlock = (if chain S = [] then None else Some (last (chain S))),
               held_dataString = dataString P data\<rparr>)"

text \<open>
  Once the payload has been hashed and encrypted, the nonce and the ciphertext are stored
  under the index after that of \<open>prevBlock\<close>; reading the index of an undefined
  \<open>prevBlock\<close> raises a TypeError, before anything is stored. (The hash of the text,
  which the source computes first, depends on the text alone; it is written below, where
  the block is built.)
\<close>

definition append_store ::
  "platform \<Rightarrow> env \<Rightarrow> appending \<Rightarrow> SecureStorage \<Rightarrow> (error + unit) \<times> SecureStorage" where
  "append_store P E a S =
     (let iv = getRandomValues E 12;
          encryptedContent =
            aes_gcm_encrypt P (held_key a) iv (utf8_encode P (held_dataString a));
          storedBlob = iv @ encryptedContent
      in case held_prevBlock a of
           None \<Rightarrow> (Inl TypeError, S)
         | Some prevBlock \<Rightarrow>
             (Inr (), S\<lparr>storage := Map_set (index prevBlock + 1) storedBlob (storage S)\<rparr>))"

text \<open>
  Once \<open>prevBlock\<close> has been hashed, the new block is built from what was read at the
  start and pushed onto the chain as it is by then. (With an undefined \<open>prevBlock\<close> the
  source has raised before and does not get here.)
\<close>

definition append_push ::
  "platform \<Rightarrow> env \<Rightarrow> appending \<Rightarrow> SecureStorage \<Rightarrow> (error + StorageBlock) \<times> SecureStorage" where
  "append_push P E a S =
     (case held_prevBlock a of
        None \<Rightarrow> (Inl TypeError, S)
      | Some prevBlock \<Rightarrow>
          let newBlock =
                \<lparr>index = index prevBlock + 1,
                 previousHash = sha256 P (json_stringify P (block_json prevBlock)),
                 timestamp = now_block E,
                 dataHash = sha256 P (held_dataString a),
                 signature = js ''SIG_'' @ dec (now_signature E) @ js ''_'' @ random_hex E\<rparr>
          in (Inr newBlock, S\<lparr>chain := chain S @ [newBlock]\<rparr>))"

text \<open>
  What is left of an \<open>append\<close> that has begun, when nothing else touches the ledger
  before it is done; and \<open>append\<close> as a caller sees it who awaits it while nothing else
  is pending.
\<close>

definition append_resume ::
  "platform \<Rightarrow> env \<Rightarrow> appending \<Rightarrow> SecureStorage \<Rightarrow> (error + StorageBlock) \<times> SecureStorage" where
  "append_resume P E a S =
     (case append_store P E a S of
        (Inl e, S1) \<Rightarrow> (Inl e, S1)
      | (Inr u, S1) \<Rightarrow> append_push P E a S1)"

definition append_block ::
  "platform \<Rightarrow> env \<Rightarrow> json \<Rightarrow> SecureStorage \<Rightarrow> (error + StorageBlock) \<times> SecureStorage" where
  "append_block P E data S =
     (case append_begin P data S of
        Inl e \<Rightarrow> (Inl e, S)
      | Inr a \<Rightarrow> append_resume P E a S)"

text \<open>
  \<open>decrypt\<close>: the body of the \<open>try\<close> block, where the key check, the authenticated
  decryption and the parser can raise, and the method itself, whose \<open>catch\<close> turns every
  error into \<open>null\<close>.
\<close>

definition decrypt_try :: "platform \<Rightarrow> SecureStorage \<Rightarrow> int \<Rightarrow> error + json" where
  "decrypt_try P S i =
     (case getKey S of
        Inl e \<Rightarrow> Inl e
      | Inr key \<Rightarrow>
          (case Map_get (storage S) i of
             None \<Rightarrow> Inr JNull
           | Some encryptedData \<Rightarrow>
               (case aes_gcm_decrypt P key (take 12 encryptedData) (drop 12 encryptedData) of
                  None \<Rightarrow> Inl OperationError
                | Some decryptedBuffer \<Rightarrow>
                    (case json_parse P (utf8_decode P decryptedBuffer) of
                       None \<Rightarrow> Inl SyntaxError
                     | Some v \<Rightarrow> Inr v))))"

definition decrypt :: "platform \<Rightarrow> SecureStorage \<Rightarrow> int \<Rightarrow> error + json" where
  "decrypt P S i = (case decrypt_try P S i of Inl e \<Rightarrow> Inr JNull | Inr v \<Rightarrow> Inr v)"

text \<open>The three semantic records, and the helpers that append them.\<close>

definition action_record :: "jsstring \<Rightarrow> int \<Rightarrow> nat \<Rightarrow> jsstring \<Rightarrow> jsstring \<Rightarrow> json" where
  "action_record ty targetBlockIndex now user description =
     JObj [(js ''type'', JStr ty),
           (js ''targetIndex'', JNum targetBlockIndex),
           (js ''timestamp'', JNum (int now)),
           (js ''user'', JStr user),
           (js ''description'', JStr description)]"

definition lock_record :: "int \<Rightarrow> nat \<Rightarrow> jsstring \<Rightarrow> json" where
  "lock_record targetBlockIndex now user =
     action_record (js ''LOCK_EVIDENCE'') targetBlockIndex now user
       (js ''Evidence locked by '' @ user)"

definition unlock_record :: "int \<Rightarrow> nat \<Rightarrow> jsstring \<Rightarrow> json" where
  "unlock_record targetBlockIndex now user =
     action_record (js ''UNLOCK_EVIDENCE'') targetBlockIndex now user
       (js ''Evidence unlocked by '' @ user)"

definition tombstone_record :: "int \<Rightarrow> nat \<Rightarrow> jsstring \<Rightarrow> json" where
  "tombstone_record targetBlockIndex now user =
     action_record (js ''TOMBSTONE'') targetBlockIndex now user
       (js ''Item deleted by '' @ user)"

definition append_then_true ::
  "platform \<Rightarrow> env \<Rightarrow> json \<Rightarrow> SecureStorage \<Rightarrow> (error + bool) \<times> SecureStorage" where
  "append_then_true P E data S =
     (case append_block P E data S of
        (Inl e, S') \<Rightarrow> (Inl e, S')
      | (Inr b, S') \<Rightarrow> (Inr True, S'))"

definition lockItem ::
  "platform \<Rightarrow> env \<Rightarrow> nat \<Rightarrow> int \<Rightarrow> jsstring \<Rightarrow> SecureStorage \<Rightarrow> (error + bool) \<times> SecureStorage" where
  "lockItem P E now targetBlockIndex user S =
     append_then_true P E (lock_record targetBlockIndex now user) S"

definition unlockItem ::
  "platform \<Rightarrow> env \<Rightarrow> nat \<Rightarrow> int \<Rightarrow> jsstring \<Rightarrow> SecureStorage \<Rightarrow> (error + bool) \<times> SecureStorage" where
  "unlockItem P E now targetBlockIndex user S =
     append_then_true P E (unlock_record targetBlockIndex now user) S"

definition deleteItem ::
  "platform \<Rightarrow> env \<Rightarrow> nat \<Rightarrow> int \<Rightarrow> jsstring \<Rightarrow> SecureStorage \<Rightarrow> (error + bool) \<times> SecureStorage" where
  "deleteItem P E now targetBlockIndex user S =
     append_then_true P E (tombstone_record targetBlockIndex now user) S"

subsection \<open>The projector: \<open>getAllItems\<close>\<close>

text \<open>
  A projected item is a fresh object: the three prefixed metadata fields, the fields of
  the decrypted record spread over them, and later the \<open>locked\<close> flag. The replay keeps
  the items in a \<open>Map\<close> keyed by block index and the two sets of lock and deletion
  targets; a target is whatever value the record carries.
\<close>

type_synonym item = "jsstring \<rightharpoonup> json"

record replay =
  rawItems :: "(int \<times> item) list"
  locks :: "json set"
  deletions :: "json set"

definition make_item :: "StorageBlock \<Rightarrow> json \<Rightarrow> item" where
  "make_item block content =
     [js ''_blockIndex'' \<mapsto> JNum (index block),
      js ''_blockHash'' \<mapsto> JStr (dataHash block),
      js ''_timestamp'' \<mapsto> JNum (int (timestamp block))] ++ map_of (own_props content)"

definition has_type :: "json \<Rightarrow> jsstring \<Rightarrow> bool" where
  "has_type content ty = (get_prop content (js ''type'') = Some (JStr ty))"

definition targetIndex :: "json \<Rightarrow> json option" where
  "targetIndex content = get_prop content (js ''targetIndex'')"

definition has_target :: "json \<Rightarrow> bool" where
  "has_target content = (case targetIndex content of None \<Rightarrow> False | Some t \<Rightarrow> truthy t)"

text \<open>
  One round of the first loop: decrypt the block's payload and fold it in. \<open>decrypt\<close> is
  awaited outside any \<open>try\<close>, so an error it raised would leave \<open>getAllItems\<close>.
\<close>

definition replay_block ::
  "platform \<Rightarrow> SecureStorage \<Rightarrow> replay \<Rightarrow> StorageBlock \<Rightarrow> error + replay" where
  "replay_block P S R block =
     (case decrypt P S (index block) of
        Inl e \<Rightarrow> Inl e
      | Inr content \<Rightarrow>
          (if truthy content then
             let item = make_item block content in
             if has_type content (js ''LOCK_EVIDENCE'') \<and> has_target content then
               Inr (R\<lparr>locks := insert (the (targetIndex content)) (locks R),
                      rawItems := Map_set (index block) item (rawItems R)\<rparr>)
             else if has_type content (js ''UNLOCK_EVIDENCE'') \<and> has_target content then
               Inr (R\<lparr>locks := locks R - {the (targetIndex content)},
                      rawItems := Map_set (index block) item (rawItems R)\<rparr>)
             else if has_type content (js ''TOMBSTONE'') \<and> has_target content then
               Inr (R\<lparr>deletions := insert (the (targetIndex content)) (deletions R),
                      rawItems := Map_set (index block) item (rawItems R)\<rparr>)
             else
               Inr (R\<lparr>rawItems := Map_set (index block) item (rawItems R)\<rparr>)
           else Inr R))"

fun replay_loop ::
  "platform \<Rightarrow> SecureStorage \<Rightarrow> replay \<Rightarrow> StorageBlock list \<Rightarrow> error + replay" where
  "replay_loop P S R [] = Inr R"
| "replay_loop P S R (block # blocks) =
     (case replay_block P S R block of
        Inl e \<Rightarrow> Inl e
      | Inr R' \<Rightarrow> replay_loop P S R' blocks)"

text \<open>The first loop runs over the chain from position 1, skipping the genesis block.\<close>

definition replay_chain :: "platform \<Rightarrow> SecureStorage \<Rightarrow> error + replay" where
  "replay_chain P S =
     replay_loop P S \<lparr>rawItems = [], locks = {}, deletions = {}\<rparr> (drop 1 (chain S))"

text \<open>
  The second loop: skip the deleted entries and set the lock flag on the others. The
  entries keep their block index here; \<open>getAllItems\<close> returns the items, newest first.
\<close>

definition decorate :: "replay \<Rightarrow> (int \<times> item) list" where
  "decorate R =
     map (\<lambda>(i, item). (i, item(js ''locked'' \<mapsto> JBool (JNum i \<in> locks R))))
       (filter (\<lambda>(i, item). JNum i \<notin> deletions R) (rawItems R))"

definition visible :: "platform \<Rightarrow> SecureStorage \<Rightarrow> error + (int \<times> item) list" where
  "visible P S = (case replay_chain P S of Inl e \<Rightarrow> Inl e | Inr R \<Rightarrow> Inr (decorate R))"

definition getAllItems :: "platform \<Rightarrow> SecureStorage \<Rightarrow> error + item list" where
  "getAllItems P S =
     (case visible P S of Inl e \<Rightarrow> Inl e | Inr entries \<Rightarrow> Inr (rev (map snd entries)))"

definition getChainLength :: "SecureStorage \<Rightarrow> nat" where
  "getChainLength S = length (chain S)"

definition getStorageUsage :: "SecureStorage \<Rightarrow> nat" where
  "getStorageUsage S = foldl (\<lambda>size (i, blob). size + length blob) 0 (storage S)"

section \<open>The validation layer: \<open>InputValidator\<close>\<close>

subsection \<open>The schemas\<close>

text \<open>
  \<open>(?:25[0-5]|2[0-4][0-9]|[01]?[0-9][0-9]?)\<close>, and the six patterns of \<open>PATTERNS\<close>.
\<close>

definition octet :: regex where
  "octet =
     Alt (seqs [ch 50, ch 53, Chr (in_range 48 53)])
       (Alt (seqs [ch 50, Chr (in_range 48 52), Chr is_digit])
          (seqs [Opt (Chr (in_range 48 49)), Chr is_digit, Opt (Chr is_digit)]))"

definition PATTERNS_IP_V4 :: regex where
  "PATTERNS_IP_V4 = seqs [Bol, times 3 (seqs [octet, ch 46]), octet, Eol]"

definition PATTERNS_SAFE_TEXT :: regex where
  "PATTERNS_SAFE_TEXT =
     seqs [Bol,
           Plus (\<lambda>c. is_lower c \<or> is_upper c \<or> is_digit c \<or> is_white_space c \<or>
                     c = 45 \<or> c = 95 \<or> c = 46),
           Eol]"

definition PATTERNS_FILENAME :: regex where
  "PATTERNS_FILENAME =
     seqs [Bol, Plus (\<lambda>c. is_lower c \<or> is_upper c \<or> is_digit c \<or> c = 45 \<or> c = 95), Eol]"

definition hex_upper :: "jschar \<Rightarrow> bool" where
  "hex_upper c = (in_range 65 70 c \<or> is_digit c)"

definition PATTERNS_MASTER_KEY :: regex where
  "PATTERNS_MASTER_KEY =
     seqs [Bol, times 4 (Chr hex_upper), ch 45, times 4 (Chr hex_upper), ch 45,
           times 4 (Chr hex_upper), ch 45, times 4 (Chr hex_upper), Eol]"

definition PATTERNS_PORT :: regex where
  "PATTERNS_PORT = seqs [Bol, Plus is_digit, Eol]"

definition PATTERNS_SERIAL :: regex where
  "PATTERNS_SERIAL = seqs [Bol, Plus (\<lambda>c. is_upper c \<or> is_digit c \<or> c = 45), Eol]"

text \<open>The pattern of the password case: \<open>/^[\x20-\x7E]+$/\<close>.\<close>

definition PRINTABLE_ASCII :: regex where
  "PRINTABLE_ASCII = seqs [Bol, Plus (in_range 32 126), Eol]"

subsection \<open>The attack signatures\<close>

text \<open>\<open>\bA\b.*\bB\b\<close> under the \<open>i\<close> flag: the shape of the five SQL signatures.\<close>

definition sql_pair :: "string \<Rightarrow> string \<Rightarrow> regex" where
  "sql_pair a b = seqs [WordB, liti (js a), WordB, Star dot, WordB, liti (js b), WordB]"

definition ATTACK_VECTORS :: "regex list" where
  "ATTACK_VECTORS =
     [sql_pair ''UNION'' ''SELECT'',
      sql_pair ''SELECT'' ''FROM'',
      sql_pair ''INSERT'' ''INTO'',
      sql_pair ''UPDATE'' ''SET'',
      sql_pair ''DELETE'' ''FROM'',
      lit (js ''--''),
      lit (js ''/*''),
      lit (js '';''),
      lit (js ''|''),
      lit [96],
      lit (js ''$(''),
      lit (js ''&''),
      lit (js ''../''),
      lit [46, 46, 92],
      liti (js ''<script''),
      liti (js ''javascript:''),
      liti (js ''onerror=''),
      liti (js ''onload='')]"

datatype ValidationContext = IP | PORT | SAFE_TEXT | FILENAME | MASTER_KEY | SERIAL | PASSWORD

text \<open>A context as the template literals print it.\<close>

fun context_name :: "ValidationContext \<Rightarrow> jsstring" where
  "context_name IP = js ''IP''"
| "context_name PORT = js ''PORT''"
| "context_name SAFE_TEXT = js ''SAFE_TEXT''"
| "context_name FILENAME = js ''FILENAME''"
| "context_name MASTER_KEY = js ''MASTER_KEY''"
| "context_name SERIAL = js ''SERIAL''"
| "context_name PASSWORD = js ''PASSWORD''"

subsection \<open>Canonicalisation, attack scan, schema check\<close>

text \<open>The class \<open>[\x00-\x08\x0B\x0C\x0E-\x1F\x7F]\<close> that \<open>canonicalize\<close> strips.\<close>

definition is_control :: "jschar \<Rightarrow> bool" where
  "is_control c = (in_range 0 8 c \<or> c = 11 \<or> c = 12 \<or> in_range 14 31 c \<or> c = 127)"

definition canonicalize :: "platform \<Rightarrow> jsstring \<Rightarrow> jsstring" where
  "canonicalize P input =
     (if input = [] then []
      else trim (filter (\<lambda>c. \<not> is_control c) (normalize_nfkc P input)))"

definition detectAttackVectors :: "jsstring \<Rightarrow> ValidationContext \<Rightarrow> error + unit" where
  "detectAttackVectors input context =
     (if context = PASSWORD then Inr ()
      else if list_ex (\<lambda>pattern. regex_test pattern input) ATTACK_VECTORS
      then Inl (SecurityException (js ''Malicious Pattern Detected: '' @ context_name context))
      else Inr ())"

text \<open>
  \<open>logViolation\<close> masks the input and appends the violation record to the ledger,
  inside a \<open>try\<close> whose \<open>catch\<close> swallows whatever \<open>append\<close> raises.
\<close>

definition maskedInput :: "jsstring \<Rightarrow> ValidationContext \<Rightarrow> jsstring" where
  "maskedInput input context =
     (if context = PASSWORD \<or> context = MASTER_KEY then js ''********''
      else take 50 input @ (if length input > 50 then js ''...'' else []))"

definition violation_record :: "jsstring \<Rightarrow> ValidationContext \<Rightarrow> jsstring \<Rightarrow> json" where
  "violation_record input context fieldName =
     JObj [(js ''type'', JStr (js ''SECURITY_VIOLATION'')),
           (js ''severity'', JStr (js ''critical'')),
           (js ''description'',
              JStr (js ''Injection Blocked ('' @ context_name context @ js ''): '' @ fieldName)),
           (js ''metadata'',
              JObj [(js ''payload_fragment'', JStr (maskedInput input context)),
                    (js ''validation_schema'', JStr (context_name context))])]"

text \<open>
  \<open>validate\<close> is synchronous and calls \<open>logViolation\<close> without awaiting it. The call
  runs as far as the first \<open>await\<close> of \<open>append\<close> and returns: the ledger is as it
  was, and an \<open>append\<close> that has begun is left pending (none when \<open>append\<close> raised at
  once, for want of a key; the \<open>catch\<close> takes that error later). \<open>logViolation_resume\<close>
  is the rest of the call, run whenever the pending \<open>append\<close> goes on, on the ledger as
  it is by then.
\<close>

definition logViolation ::
  "platform \<Rightarrow> jsstring \<Rightarrow> ValidationContext \<Rightarrow> jsstring \<Rightarrow> SecureStorage \<Rightarrow> appending option" where
  "logViolation P input context fieldName S =
     (case append_begin P (violation_record input context fieldName) S of
        Inl e \<Rightarrow> None
      | Inr a \<Rightarrow> Some a)"

definition logViolation_resume ::
  "platform \<Rightarrow> env \<Rightarrow> appending \<Rightarrow> SecureStorage \<Rightarrow> (error + unit) \<times> SecureStorage" where
  "logViolation_resume P E a S =
     (case append_resume P E a S of
        (Inl e, S') \<Rightarrow> (Inr (), S')
      | (Inr b, S') \<Rightarrow> (Inr (), S'))"

text \<open>The \<open>switch\<close> of \<open>validate\<close>: the schema of each context.\<close>

fun isValid :: "platform \<Rightarrow> ValidationContext \<Rightarrow> jsstring \<Rightarrow> bool" where
  "isValid P IP cleanInput =
     (regex_test PATTERNS_IP_V4 cleanInput \<and>
      \<not> (cleanInput = js ''0.0.0.0'' \<or> cleanInput = js ''255.255.255.255''))"
| "isValid P PORT cleanInput =
     (regex_test PATTERNS_PORT cleanInput \<and>
      (let port = parseInt10 cleanInput in port > 0 \<and> port \<le> 65535))"
| "isValid P SAFE_TEXT cleanInput = regex_test PATTERNS_SAFE_TEXT cleanInput"
| "isValid P FILENAME cleanInput =
     (regex_test PATTERNS_FILENAME cleanInput \<and> \<not> length cleanInput > 255)"
| "isValid P MASTER_KEY cleanInput = regex_test PATTERNS_MASTER_KEY (toUpperCase P cleanInput)"
| "isValid P SERIAL cleanInput = regex_test PATTERNS_SERIAL (toUpperCase P cleanInput)"
| "isValid P PASSWORD cleanInput =
     (regex_test PRINTABLE_ASCII cleanInput \<and> length cleanInput \<ge> 8)"

text \<open>
  \<open>validate\<close> returns the validated string or raises, and with it the model gives the
  \<open>append\<close> that the call has left pending, if any. It does not write to the ledger
  itself.
\<close>

definition validate ::
  "platform \<Rightarrow> jsstring \<Rightarrow> ValidationContext \<Rightarrow> jsstring \<Rightarrow> SecureStorage
     \<Rightarrow> (error + jsstring) \<times> appending option" where
  "validate P input context fieldName S =
     (let cleanInput = canonicalize P input in
      if cleanInput = [] \<and> context \<noteq> SAFE_TEXT then
        (Inl (SecurityException (fieldName @ js '' cannot be empty or whitespace only.'')), None)
      else
        (case detectAttackVectors cleanInput context of
           Inl e \<Rightarrow> (Inl e, None)
         | Inr _ \<Rightarrow>
             (if \<not> isValid P context cleanInput then
                (Inl (SecurityException
                        (js ''Security Policy Violation: '' @ fieldName @
                         js '' format is invalid or contains prohibited characters.'')),
                 logViolation P cleanInput context fieldName S)
              else if context = MASTER_KEY \<or> context = SERIAL then
                (Inr (toUpperCase P cleanInput), None)
              else (Inr cleanInput, None))))"

section \<open>Calls and runs\<close>

text \<open>
  The operations of the core as one type of calls, each with what it reads from the
  outside world, and what a call returns. \<open>exec\<close> performs one call on the process-wide
  ledger, from its start to the moment its promise settles; \<open>run\<close> performs a sequence
  of calls by a caller who awaits each one before making the next, while no
  \<open>logViolation\<close> is pending.
\<close>

datatype call =
    Initialize nat jsstring
  | Append env json
  | Decrypt int
  | LockItem env nat int jsstring
  | UnlockItem env nat int jsstring
  | DeleteItem env nat int jsstring
  | GetAllItems
  | GetChainLength
  | GetStorageUsage

datatype result =
    Bool bool
  | Block StorageBlock
  | Value json
  | Items "item list"
  | Number nat

definition returning :: "('a \<Rightarrow> result) \<Rightarrow> (error + 'a) \<times> SecureStorage \<Rightarrow> (error + result) \<times> SecureStorage" where
  "returning f r = (map_sum id f (fst r), snd r)"

fun exec :: "platform \<Rightarrow> call \<Rightarrow> SecureStorage \<Rightarrow> (error + result) \<times> SecureStorage" where
  "exec P (Initialize now masterKey) S = returning Bool (initialize P now masterKey S)"
| "exec P (Append E data) S = returning Block (append_block P E data S)"
| "exec P (Decrypt i) S = returning Value (decrypt P S i, S)"
| "exec P (LockItem E now i user) S = returning Bool (lockItem P E now i user S)"
| "exec P (UnlockItem E now i user) S = returning Bool (unlockItem P E now i user S)"
| "exec P (DeleteItem E now i user) S = returning Bool (deleteItem P E now i user S)"
| "exec P GetAllItems S = returning Items (getAllItems P S, S)"
| "exec P GetChainLength S = (Inr (Number (getChainLength S)), S)"
| "exec P GetStorageUsage S = (Inr (Number (getStorageUsage S)), S)"

definition run :: "platform \<Rightarrow> call list \<Rightarrow> SecureStorage \<Rightarrow> SecureStorage" where
  "run P calls S = foldl (\<lambda>S c. snd (exec P c S)) S calls"

section \<open>A small platform for evaluation\<close>

text \<open>
  To evaluate the model on concrete inputs, the platform parameter needs a value. This
  one agrees with the browser on ASCII text for normalisation (NFKC leaves ASCII
  unchanged), case mapping and UTF-8; its digest, key derivation and cipher are small
  stand-ins (a checksum, the password itself, the key prepended to the plaintext), and
  its parser knows the serialisations of a given list of values only.
\<close>

fun render :: "json \<Rightarrow> jsstring" where
  "render JNull = js ''null''"
| "render (JBool b) = (if b then js ''true'' else js ''false'')"
| "render (JNum n) = (if n < 0 then 45 # dec (nat (- n)) else dec (nat n))"
| "render (JStr s) = 34 # s @ [34]"
| "render (JArr xs) = 91 # concat (map (\<lambda>x. render x @ [44]) xs) @ [93]"
| "render (JObj kvs) =
     123 # concat (map (\<lambda>kv. 34 # fst kv @ [34, 58] @ render (snd kv) @ [44]) kvs) @ [125]"

definition small_platform :: "json list \<Rightarrow> platform" where
  "small_platform known =
     \<lparr>normalize_nfkc = (\<lambda>s. s),
      toUpperCase = map fold_case,
      utf8_encode = map of_nat,
      utf8_decode = map unat,
      digest_sha256 = (\<lambda>bs. [of_nat (length bs), of_nat (sum_list (map unat bs))]),
      pbkdf2_sha256 = (\<lambda>password salt iterations. password),
      aes_gcm_encrypt = (\<lambda>key iv plaintext. key @ plaintext),
      aes_gcm_decrypt = (\<lambda>key iv ciphertext.
         if take (length key) ciphertext = key then Some (drop (length key) ciphertext)
         else None),
      json_stringify = render,
      json_parse = map_of (map (\<lambda>v. (render v, v)) known)\<rparr>"

text \<open>A fixed reading of the outside world for one call.\<close>

definition small_env :: "nat \<Rightarrow> env" where
  "small_env t =
     \<lparr>now_block = t, now_signature = t, random_byte = (\<lambda>i. of_nat (i + t)),
      random_hex = js ''1a2b3c4d''\<rparr>"

text \<open>A small scenario on that platform: three evidence records on a fresh ledger.\<close>

definition demo_evidence :: "nat \<Rightarrow> json" where
  "demo_evidence n =
     JObj [(js ''type'', JStr (js ''EVIDENCE_SNAPSHOT'')), (js ''cameraId'', JNum (int n))]"

definition demo_platform :: platform where
  "demo_platform =
     small_platform
       [demo_evidence 1, demo_evidence 2, demo_evidence 3,
        lock_record 2 5 (js ''u''), unlock_record 2 6 (js ''u''),
        tombstone_record 1 7 (js ''u''), tombstone_record 3 3 (js ''u''),
        violation_record (js ''70000'') PORT (js ''Port'')]"

definition demo_ledger :: SecureStorage where
  "demo_ledger =
     run demo_platform
       [Initialize 1 (js ''key''),
        Append (small_env 2) (demo_evidence 1),
        Append (small_env 3) (demo_evidence 2),
        Append (small_env 4) (demo_evidence 3)]
       new_SecureStorage"

text \<open>
  A second scenario: one evidence record, then a deletion that names index 3, where no
  block is yet.
\<close>

definition early_tombstone_ledger :: SecureStorage where
  "early_tombstone_ledger =
     run demo_platform
       [Initialize 1 (js ''key''),
        Append (small_env 2) (demo_evidence 1),
        DeleteItem (small_env 3) 3 3 (js ''u'')]
       new_SecureStorage"

section \<open>Vocabulary of the statements\<close>

text \<open>
  What the properties below assume of the platform. The cipher is sound when decrypting
  what was encrypted under the same key and nonce gives the plaintext back; a record is
  readable when its text survives encoding, decoding and parsing. Both hold of the
  browser's built-ins for the records this program writes.
\<close>

definition cipher_ok :: "platform \<Rightarrow> bool" where
  "cipher_ok P =
     (\<forall>key iv plaintext.
        aes_gcm_decrypt P key iv (aes_gcm_encrypt P key iv plaintext) = Some plaintext)"

definition readable :: "platform \<Rightarrow> json \<Rightarrow> bool" where
  "readable P data =
     (json_parse P (utf8_decode P (utf8_encode P (dataString P data))) = Some data)"

text \<open>
  An evidence record: a truthy value that is none of the three semantic records with a
  target, so that the replay takes it as a plain item.
\<close>

definition is_action :: "json \<Rightarrow> bool" where
  "is_action content =
     (has_target content \<and>
      (has_type content (js ''LOCK_EVIDENCE'') \<or> has_type content (js ''UNLOCK_EVIDENCE'') \<or>
       has_type content (js ''TOMBSTONE'')))"

definition is_evidence :: "json \<Rightarrow> bool" where
  "is_evidence content = (truthy content \<and> \<not> is_action content)"

text \<open>The calls that only read the ledger.\<close>

fun is_read :: "call \<Rightarrow> bool" where
  "is_read (Decrypt i) = True"
| "is_read GetAllItems = True"
| "is_read GetChainLength = True"
| "is_read GetStorageUsage = True"
| "is_read _ = False"

text \<open>
  The shape of a ledger between calls: an empty chain exactly while no key is set, the
  block at position \<open>i\<close> carries index \<open>i\<close>, and payloads are stored under the indices
  of blocks after the genesis block only.
\<close>

definition ledger_inv :: "SecureStorage \<Rightarrow> bool" where
  "ledger_inv S =
     ((encryptionKey S = None) = (chain S = []) \<and>
      map index (chain S) = map int [0..<length (chain S)] \<and>
      list_all (\<lambda>j. 0 < j \<and> j < int (length (chain S))) (map fst (storage S)))"



text \<open>
  Dotted quads. \<open>dotted_quad a b c d\<close> writes four numbers in decimal, without leading
  zeros, with dots between them. \<open>is_dotted_quad\<close> holds of the strings made of four
  groups with dots between them, each group one to three digits that denote a number
  from 0 to 255.
\<close>

definition dotted_quad :: "nat \<Rightarrow> nat \<Rightarrow> nat \<Rightarrow> nat \<Rightarrow> jsstring" where
  "dotted_quad a b c d = dec a @ [46] @ dec b @ [46] @ dec c @ [46] @ dec d"

fun split_on :: "jschar \<Rightarrow> jsstring \<Rightarrow> jsstring list" where
  "split_on c [] = [[]]"
| "split_on c (x # xs) =
     (if x = c then [] # split_on c xs
      else (case split_on c xs of [] \<Rightarrow> [[x]] | g # gs \<Rightarrow> (x # g) # gs))"

definition digit_group :: "jsstring \<Rightarrow> bool" where
  "digit_group g = (1 \<le> length g \<and> length g \<le> 3 \<and> list_all is_digit g)"

fun digits_value :: "jsstring \<Rightarrow> nat" where
  "digits_value [] = 0"
| "digits_value (c # cs) = (c - 48) * 10 ^ length cs + digits_value cs"

definition octet_group :: "jsstring \<Rightarrow> bool" where
  "octet_group g = (digit_group g \<and> digits_value g \<le> 255)"

definition is_dotted_quad :: "jsstring \<Rightarrow> bool" where
  "is_dotted_quad s = (length (split_on 46 s) = 4 \<and> list_all octet_group (split_on 46 s))"

text \<open>
  The four attack strings that the specification names: \<open>' OR 1=1 --\<close>, \<open>; rm -rf\<close>,
  \<open><script>\<close> and \<open>../../etc/passwd\<close>.
\<close>

definition attack_strings :: "jsstring list" where
  "attack_strings =
     [39 # js '' OR 1=1 --'', js ''; rm -rf'', js ''<script>'', js ''../../etc/passwd'']"

section \<open>Properties of the ledger\<close>

text \<open>
  \<open>append\<close> awaited with nothing else pending, in one piece: the three parts run one
  after the other on the same ledger.
\<close>

lemma append_block_unfold:
  "append_block P E data S =
     (case getKey S of
        Inl e \<Rightarrow> (Inl e, S)
      | Inr key \<Rightarrow>
          (if chain S = [] then (Inl TypeError, S)
           else
             let prevBlock = last (chain S);
                 dataHash' = sha256 P (dataString P data);
                 iv = getRandomValues E 12;
                 encryptedContent = aes_gcm_encrypt P key iv (utf8_encode P (dataString P data));
                 storedBlob = iv @ encryptedContent;
                 newIndex = index prevBlock + 1;
                 S1 = S\<lparr>storage := Map_set newIndex storedBlob (storage S)\<rparr>;
                 newBlock =
                   \<lparr>index = newIndex,
                    previousHash = sha256 P (json_stringify P (block_json prevBlock)),
                    timestamp = now_block E,
                    dataHash = dataHash',
                    signature = js ''SIG_'' @ dec (now_signature E) @ js ''_'' @ random_hex E\<rparr>
             in (Inr newBlock, S1\<lparr>chain := chain S1 @ [newBlock]\<rparr>)))"
  by (simp add: append_block_def append_begin_def append_resume_def append_store_def
      append_push_def Let_def split: sum.splits)

lemma getKey_None: "encryptionKey S = None \<Longrightarrow>
    getKey S = Inl (Error (js ''Storage locked: Encryption key not initialized''))"
  by (simp add: getKey_def)

lemma getKey_Some: "encryptionKey S = Some key \<Longrightarrow> getKey S = Inr key"
  by (simp add: getKey_def)

lemma append_block_locked:
  "encryptionKey S = None \<Longrightarrow>
   append_block P E data S =
     (Inl (Error (js ''Storage locked: Encryption key not initialized'')), S)"
  by (simp add: append_block_unfold getKey_None)

lemma decrypt_locked: "encryptionKey S = None \<Longrightarrow> decrypt P S i = Inr JNull"
  by (simp add: decrypt_def decrypt_try_def getKey_None)

lemma decrypt_total: "\<exists>v. decrypt P S i = Inr v"
  by (simp add: decrypt_def split: sum.splits)

lemma replay_block_locked:
  "encryptionKey S = None \<Longrightarrow> replay_block P S R block = Inr R"
  by (simp add: replay_block_def decrypt_locked)

lemma replay_loop_locked:
  "encryptionKey S = None \<Longrightarrow> replay_loop P S R blocks = Inr R"
  by (induction blocks) (simp_all add: replay_block_locked)

lemma getAllItems_locked: "encryptionKey S = None \<Longrightarrow> getAllItems P S = Inr []"
  by (simp add: getAllItems_def visible_def replay_chain_def replay_loop_locked decorate_def)

lemma append_block_cases:
  "append_block P E data S = (r, S') \<Longrightarrow>
   (\<exists>e. r = Inl e \<and> S' = S) \<or>
   (\<exists>b. r = Inr b \<and> chain S' = chain S @ [b] \<and> encryptionKey S' = encryptionKey S)"
  by (auto simp: append_block_unfold Let_def split: sum.splits if_splits)

lemma append_block_length:
  "append_block P E data S = (Inr b, S') \<Longrightarrow> length (chain S') = length (chain S) + 1"
  by (drule append_block_cases) auto

lemma append_block_mono: "length (chain S) \<le> length (chain (snd (append_block P E data S)))"
  using append_block_cases [of P E data S "fst (append_block P E data S)" "snd (append_block P E data S)"]
  by auto

lemma append_then_true_snd:
  "snd (append_then_true P E data S) = snd (append_block P E data S)"
  by (simp add: append_then_true_def split: prod.splits sum.splits)

lemma append_then_true_mono:
  "length (chain S) \<le> length (chain (snd (append_then_true P E data S)))"
  by (simp add: append_then_true_snd append_block_mono)

lemma initialize_mono: "length (chain S) \<le> length (chain (snd (initialize P now mk S)))"
  by (simp add: initialize_def Let_def)

lemma append_store_chain: "chain (snd (append_store P E a S)) = chain S"
  by (simp add: append_store_def Let_def split: option.splits)

lemma append_push_cases:
  "append_push P E a S = (r, S') \<Longrightarrow>
   (\<exists>e. r = Inl e \<and> S' = S) \<or>
   (\<exists>b. r = Inr b \<and> chain S' = chain S @ [b] \<and> storage S' = storage S \<and>
        encryptionKey S' = encryptionKey S)"
  by (auto simp: append_push_def Let_def split: option.splits)

lemma append_push_length:
  "append_push P E a S = (Inr b, S') \<Longrightarrow> length (chain S') = length (chain S) + 1"
  by (drule append_push_cases) auto

lemma append_push_mono: "length (chain S) \<le> length (chain (snd (append_push P E a S)))"
  using append_push_cases [of P E a S "fst (append_push P E a S)" "snd (append_push P E a S)"]
  by auto

lemma append_resume_mono: "length (chain S) \<le> length (chain (snd (append_resume P E a S)))"
proof -
  obtain r S1 where st: "append_store P E a S = (r, S1)"
    by (cases "append_store P E a S")
  then have c: "chain S1 = chain S"
    using append_store_chain [of P E a S] by simp
  show ?thesis
    using append_push_mono [of S1 P E a] c
    by (cases r) (simp_all add: append_resume_def st)
qed

lemma logViolation_resume_snd:
  "snd (logViolation_resume P E a S) = snd (append_resume P E a S)"
  by (simp add: logViolation_resume_def split: prod.splits sum.splits)

lemma exec_mono: "length (chain S) \<le> length (chain (snd (exec P c S)))"
  by (cases c)
     (simp_all add: returning_def append_block_mono initialize_mono
        lockItem_def unlockItem_def deleteItem_def append_then_true_mono)

lemma run_mono: "length (chain S) \<le> length (chain (run P calls S))"
proof (induction calls arbitrary: S)
  case Nil
  then show ?case by (simp add: run_def)
next
  case (Cons c calls)
  have "length (chain S) \<le> length (chain (snd (exec P c S)))"
    by (rule exec_mono)
  also have "\<dots> \<le> length (chain (run P calls (snd (exec P c S))))"
    by (rule Cons.IH)
  finally show ?case by (simp add: run_def)
qed

lemma initialize_new:
  "snd (initialize P now mk new_SecureStorage) =
     \<lparr>chain = [genesis now],
      encryptionKey = Some (pbkdf2_sha256 P (utf8_encode P mk)
                              (utf8_encode P (js ''KEYSIGHT_LOCAL_SALT'')) 100000),
      storage = []\<rparr>"
  by (simp add: initialize_def new_SecureStorage_def Let_def)

lemma append_block_unlocked:
  assumes "encryptionKey S = Some key" and "chain S \<noteq> []"
  shows "\<exists>b. append_block P E data S =
           (Inr b,
            S\<lparr>storage := Map_set (index b)
                 (getRandomValues E 12 @
                  aes_gcm_encrypt P key (getRandomValues E 12) (utf8_encode P (dataString P data)))
                 (storage S),
              chain := chain S @ [b]\<rparr>) \<and>
         index b = index (last (chain S)) + 1 \<and>
         previousHash b = sha256 P (json_stringify P (block_json (last (chain S)))) \<and>
         timestamp b = now_block E \<and>
         dataHash b = sha256 P (dataString P data)"
  using assms by (simp add: append_block_unfold getKey_Some Let_def)

text \<open>
  C2 (as amended). While no key is established, \<open>append\<close> raises the storage-locked
  error and leaves the ledger as it was; \<open>decrypt\<close> does not raise but returns \<open>null\<close>,
  and \<open>getAllItems\<close> does not raise but returns the empty sequence.
\<close>

theorem uninitialized_operations:
  assumes "encryptionKey S = None"
  shows "append_block P E data S =
           (Inl (Error (js ''Storage locked: Encryption key not initialized'')), S) \<and>
         decrypt P S i = Inr JNull \<and>
         getAllItems P S = Inr []"
  using assms by (simp add: append_block_locked decrypt_locked getAllItems_locked)

theorem uninitialized_operations_witness:
  "append_block (small_platform []) (small_env 0) (JStr (js ''x'')) new_SecureStorage =
     (Inl (Error (js ''Storage locked: Encryption key not initialized'')), new_SecureStorage) \<and>
   decrypt (small_platform []) new_SecureStorage 1 = Inr JNull \<and>
   getAllItems (small_platform []) new_SecureStorage = Inr []"
proof -
  have "encryptionKey new_SecureStorage = None"
    by (simp add: new_SecureStorage_def)
  then show ?thesis by (rule uninitialized_operations)
qed

text \<open>
  C2, the claim as stated, fails: on the freshly constructed ledger \<open>decrypt(1)\<close> returns
  \<open>null\<close> and \<open>getAllItems()\<close> returns the empty sequence; neither raises.
\<close>

theorem uninitialized_reads_do_not_raise:
  "decrypt (small_platform []) new_SecureStorage 1 = Inr JNull \<and>
   getAllItems (small_platform []) new_SecureStorage = Inr []"
  by (simp add: decrypt_locked getAllItems_locked new_SecureStorage_def)

text \<open>
  C8. A successful \<open>append\<close> makes the chain exactly one block longer, and no call of the
  core, nor any sequence of calls, makes it shorter. The same holds part by part, on
  whatever ledger a part of an \<open>append\<close> resumes, the one that \<open>validate\<close> leaves
  pending included: storing the payload leaves the chain as long as it was, a successful
  push makes it exactly one block longer, and no part makes it shorter.
\<close>

theorem chainLength_grows:
  "(append_block P E data S = (Inr b, S') \<longrightarrow> getChainLength S' = getChainLength S + 1) \<and>
   getChainLength S \<le> getChainLength (snd (exec P c S)) \<and>
   getChainLength S \<le> getChainLength (run P calls S) \<and>
   getChainLength (snd (append_store P E a S)) = getChainLength S \<and>
   (append_push P E a S = (Inr b2, S2) \<longrightarrow> getChainLength S2 = getChainLength S + 1) \<and>
   getChainLength S \<le> getChainLength (snd (append_push P E a S)) \<and>
   getChainLength S \<le> getChainLength (snd (logViolation_resume P E a S))"
  by (simp add: getChainLength_def append_block_length exec_mono run_mono append_store_chain
      append_push_length append_push_mono logViolation_resume_snd append_resume_mono)

theorem chainLength_grows_witness:
  "getChainLength
     (snd (append_block (small_platform []) (small_env 7) (JStr (js ''x''))
            (snd (initialize (small_platform []) 5 (js ''k'') new_SecureStorage)))) =
   getChainLength (snd (initialize (small_platform []) 5 (js ''k'') new_SecureStorage)) + 1 \<and>
   getChainLength
     (snd (append_push (small_platform []) (small_env 7)
            \<lparr>held_key = [], held_prevBlock = Some (genesis 5), held_dataString = js ''x''\<rparr>
            (snd (initialize (small_platform []) 5 (js ''k'') new_SecureStorage)))) =
   getChainLength (snd (initialize (small_platform []) 5 (js ''k'') new_SecureStorage)) + 1"
proof -
  let ?P = "small_platform []"
  let ?S = "snd (initialize ?P 5 (js ''k'') new_SecureStorage)"
  let ?a = "\<lparr>held_key = [], held_prevBlock = Some (genesis 5), held_dataString = js ''x''\<rparr>"
  obtain b where 1: "append_block ?P (small_env 7) (JStr (js ''x'')) ?S =
      (Inr b, snd (append_block ?P (small_env 7) (JStr (js ''x'')) ?S))"
    using append_block_unlocked [of ?S _ ?P "small_env 7" "JStr (js ''x'')"]
    by (auto simp: initialize_new)
  obtain b2 where 2: "append_push ?P (small_env 7) ?a ?S =
      (Inr b2, snd (append_push ?P (small_env 7) ?a ?S))"
    by (simp add: append_push_def Let_def)
  show ?thesis
    using chainLength_grows [where P = ?P and E = "small_env 7" and data = "JStr (js ''x'')"
        and S = ?S and b = b
        and S' = "snd (append_block ?P (small_env 7) (JStr (js ''x'')) ?S)"
        and a = ?a and ?b2.0 = b2
        and ?S2.0 = "snd (append_push ?P (small_env 7) ?a ?S)"] 1 2
    by simp
qed

lemma exec_read: "is_read c \<Longrightarrow> snd (exec P c S) = S"
  by (cases c) (simp_all add: returning_def)

lemma run_reads: "list_all is_read calls \<Longrightarrow> run P calls S = S"
  by (induction calls) (simp_all add: run_def exec_read)

text \<open>
  C9. Reading the view does not change the ledger: a second \<open>getAllItems\<close> returns the
  same sequence of items as the first, whether it follows at once or after other calls
  that only read (none of which appends).
\<close>

theorem getAllItems_twice:
  "list_all is_read calls \<longrightarrow>
     exec P GetAllItems (run P (GetAllItems # calls) S) = exec P GetAllItems S"
proof
  assume "list_all is_read calls"
  then have "list_all is_read (GetAllItems # calls)" by simp
  then have "run P (GetAllItems # calls) S = S" by (rule run_reads)
  then show "exec P GetAllItems (run P (GetAllItems # calls) S) = exec P GetAllItems S"
    by simp
qed

theorem getAllItems_twice_witness:
  "exec demo_platform GetAllItems (run demo_platform [GetAllItems, GetChainLength] demo_ledger) =
   exec demo_platform GetAllItems demo_ledger"
  using getAllItems_twice [of "[GetChainLength]" demo_platform demo_ledger] by simp

lemma Map_set_keys: "fst ` set (Map_set k v m) = insert k (fst ` set m)"
proof (induction m)
  case Nil
  then show ?case by simp
next
  case (Cons kv m)
  obtain k' v' where kv: "kv = (k', v')" by (cases kv)
  show ?case using Cons.IH by (auto simp: kv)
qed

lemma snd_returning: "snd (returning f r) = snd r"
  by (simp add: returning_def)

lemma Map_get_set: "Map_get (Map_set k v m) j = (if j = k then Some v else Map_get m j)"
  by (induction m) (auto simp: Map_get_def)

lemma ledger_inv_new: "ledger_inv new_SecureStorage"
  by (simp add: ledger_inv_def new_SecureStorage_def)

lemma ledger_inv_initialize:
  "ledger_inv S \<Longrightarrow> ledger_inv (snd (initialize P now mk S))"
  by (auto simp: ledger_inv_def initialize_def Let_def genesis_def list_all_iff)

lemma ledger_inv_last:
  assumes "ledger_inv S" and "chain S \<noteq> []"
  shows "index (last (chain S)) + 1 = int (length (chain S))"
proof -
  have "index (last (chain S)) = last (map index (chain S))"
    using assms(2) by (simp add: last_map)
  also have "\<dots> = last (map int [0..<length (chain S)])"
    using assms(1) by (simp add: ledger_inv_def)
  also have "\<dots> = int (length (chain S) - 1)"
    using assms(2) by (cases "length (chain S)") (simp_all add: last_map)
  finally show ?thesis using assms(2) by (cases "chain S") auto
qed

lemma ledger_inv_append:
  assumes "ledger_inv S"
  shows "ledger_inv (snd (append_block P E data S))"
proof (cases "encryptionKey S")
  case None
  then show ?thesis using assms by (simp add: append_block_locked)
next
  case (Some key)
  with assms have ne: "chain S \<noteq> []" by (auto simp: ledger_inv_def)
  from append_block_unlocked [OF Some ne, of P E data]
  obtain b blob where b: "append_block P E data S =
        (Inr b, S\<lparr>storage := Map_set (index b) blob (storage S), chain := chain S @ [b]\<rparr>)"
    and ib: "index b = index (last (chain S)) + 1"
    by blast
  have idx: "index b = int (length (chain S))"
    using ib ledger_inv_last [OF assms ne] by simp
  have keys: "\<forall>j \<in> fst ` set (Map_set (index b) blob (storage S)).
                0 < j \<and> j < int (length (chain S)) + 1"
    using assms ne idx unfolding Map_set_keys
    by (auto simp: list_all_iff ledger_inv_def)
  show ?thesis
    using assms Some idx keys by (auto simp: b ledger_inv_def list_all_iff)
qed

lemma ledger_inv_exec: "ledger_inv S \<Longrightarrow> ledger_inv (snd (exec P c S))"
  by (cases c)
     (simp_all add: returning_def ledger_inv_initialize ledger_inv_append
        lockItem_def unlockItem_def deleteItem_def append_then_true_snd)

lemma run_Cons: "run P (c # calls) S = run P calls (snd (exec P c S))"
  by (simp add: run_def)

lemma run_Nil: "run P [] S = S"
  by (simp add: run_def)

lemma ledger_inv_run: "ledger_inv S \<Longrightarrow> ledger_inv (run P calls S)"
  by (induction calls arbitrary: S) (simp_all add: run_Nil run_Cons ledger_inv_exec)











lemma ledger_inv_nth:
  "ledger_inv S \<Longrightarrow> i < length (chain S) \<Longrightarrow> index (chain S ! i) = int i"
proof -
  assume inv: "ledger_inv S" and i: "i < length (chain S)"
  then have "map index (chain S) ! i = map int [0..<length (chain S)] ! i"
    by (simp add: ledger_inv_def)
  then show ?thesis using i by simp
qed






lemma decrypt_cong:
  "encryptionKey S' = encryptionKey S \<Longrightarrow>
   Map_get (storage S') i = Map_get (storage S) i \<Longrightarrow>
   decrypt P S' i = decrypt P S i"
  by (simp add: decrypt_def decrypt_try_def getKey_def split: option.splits sum.splits)

lemma replay_block_cong:
  "encryptionKey S' = encryptionKey S \<Longrightarrow>
   Map_get (storage S') (index b) = Map_get (storage S) (index b) \<Longrightarrow>
   replay_block P S' R b = replay_block P S R b"
  by (simp add: replay_block_def decrypt_cong [of S' S])

lemma replay_loop_cong:
  "encryptionKey S' = encryptionKey S \<Longrightarrow>
   \<forall>b \<in> set blocks. Map_get (storage S') (index b) = Map_get (storage S) (index b) \<Longrightarrow>
   replay_loop P S' R blocks = replay_loop P S R blocks"
  by (induction blocks arbitrary: R)
     (simp_all add: replay_block_cong [of S' S] split: sum.splits)

lemma replay_loop_append:
  "replay_loop P S R (xs @ ys) =
     (case replay_loop P S R xs of Inl e \<Rightarrow> Inl e | Inr R' \<Rightarrow> replay_loop P S R' ys)"
  by (induction xs arbitrary: R) (simp_all split: sum.splits)

lemma replay_block_total: "\<exists>R'. replay_block P S R b = Inr R'"
  using decrypt_total [of P S "index b"]
  by (auto simp: replay_block_def Let_def)

lemma replay_loop_total: "\<exists>R'. replay_loop P S R blocks = Inr R'"
proof (induction blocks arbitrary: R)
  case Nil
  then show ?case by simp
next
  case (Cons b blocks)
  obtain R1 where "replay_block P S R b = Inr R1"
    using replay_block_total by blast
  then show ?case using Cons.IH [of R1] by simp
qed

lemma replay_chain_total: "\<exists>R. replay_chain P S = Inr R"
  unfolding replay_chain_def by (rule replay_loop_total)

lemma length_getRandomValues: "length (getRandomValues E n) = n"
  by (simp add: getRandomValues_def)

text \<open>What a successful append leaves behind, in one statement.\<close>

lemma append_block_effect:
  assumes inv: "ledger_inv S" and key: "encryptionKey S = Some key"
    and app: "append_block P E data S = (r, S')"
  shows "\<exists>b. r = Inr b \<and> chain S' = chain S @ [b] \<and> index b = int (length (chain S)) \<and>
             timestamp b = now_block E \<and> dataHash b = sha256 P (dataString P data) \<and>
             encryptionKey S' = Some key \<and>
             storage S' = Map_set (int (length (chain S)))
               (getRandomValues E 12 @
                aes_gcm_encrypt P key (getRandomValues E 12) (utf8_encode P (dataString P data)))
               (storage S)"
proof -
  from inv key have ne: "chain S \<noteq> []" by (auto simp: ledger_inv_def)
  from append_block_unlocked [OF key ne, of P E data] app ledger_inv_last [OF inv ne] key
  show ?thesis by auto
qed

lemma decrypt_appended:
  assumes inv: "ledger_inv S" and key: "encryptionKey S = Some key"
    and app: "append_block P E data S = (r, S')"
    and ok: "cipher_ok P" and rd: "readable P data"
  shows "decrypt P S' (int (length (chain S))) = Inr data"
proof -
  from append_block_effect [OF inv key app]
  have k: "encryptionKey S' = Some key"
    and st: "storage S' = Map_set (int (length (chain S)))
               (getRandomValues E 12 @
                aes_gcm_encrypt P key (getRandomValues E 12) (utf8_encode P (dataString P data)))
               (storage S)"
    by auto
  show ?thesis
    using ok rd
    by (simp add: decrypt_def decrypt_try_def getKey_Some [OF k] st Map_get_set
        length_getRandomValues cipher_ok_def readable_def)
qed

lemma stored_kept:
  assumes inv: "ledger_inv S" and key: "encryptionKey S = Some key"
    and app: "append_block P E data S = (r, S')"
    and j: "j \<noteq> int (length (chain S))"
  shows "Map_get (storage S') j = Map_get (storage S) j"
  using append_block_effect [OF inv key app] j by (auto simp: Map_get_set)

lemma Map_get_Some_key: "Map_get m j = Some v \<Longrightarrow> j \<in> fst ` set m"
  by (auto simp: Map_get_def dest: map_of_SomeD intro: rev_image_eqI)

lemma stored_below:
  "ledger_inv S \<Longrightarrow> Map_get (storage S) j = Some blob \<Longrightarrow> j < int (length (chain S))"
  by (auto simp: ledger_inv_def list_all_iff dest!: Map_get_Some_key)

lemma replay_chain_appended:
  assumes inv: "ledger_inv S" and key: "encryptionKey S = Some key"
    and app: "append_block P E data S = (Inr b, S')"
    and R: "replay_chain P S = Inr R"
  shows "replay_chain P S' = replay_block P S' R b"
proof -
  from inv key have ne: "chain S \<noteq> []" by (auto simp: ledger_inv_def)
  from append_block_effect [OF inv key app]
  have ch: "chain S' = chain S @ [b]" and k: "encryptionKey S' = encryptionKey S"
    using key by auto
  have same: "\<forall>x \<in> set (drop 1 (chain S)).
                Map_get (storage S') (index x) = Map_get (storage S) (index x)"
  proof
    fix x assume "x \<in> set (drop 1 (chain S))"
    then have "x \<in> set (chain S)" by (rule in_set_dropD)
    then obtain n where n: "n < length (chain S)" "chain S ! n = x"
      by (auto simp: in_set_conv_nth)
    then have "index x = int n" using ledger_inv_nth [OF inv n(1)] by simp
    then have "index x \<noteq> int (length (chain S))" using n(1) by simp
    then show "Map_get (storage S') (index x) = Map_get (storage S) (index x)"
      by (rule stored_kept [OF inv key app])
  qed
  have "replay_chain P S' =
        replay_loop P S' \<lparr>rawItems = [], locks = {}, deletions = {}\<rparr> (drop 1 (chain S) @ [b])"
    using ne by (cases "chain S") (simp_all add: replay_chain_def ch)
  also have "\<dots> = (case replay_loop P S' \<lparr>rawItems = [], locks = {}, deletions = {}\<rparr>
                          (drop 1 (chain S)) of
                      Inl e \<Rightarrow> Inl e | Inr R' \<Rightarrow> replay_loop P S' R' [b])"
    by (rule replay_loop_append)
  also have "replay_loop P S' \<lparr>rawItems = [], locks = {}, deletions = {}\<rparr> (drop 1 (chain S)) =
             replay_chain P S"
    unfolding replay_chain_def by (rule replay_loop_cong [OF k same])
  finally show ?thesis using R by (simp split: sum.splits)
qed

lemma replay_block_rawItems:
  "replay_block P S R b = Inr R' \<Longrightarrow>
   rawItems R' = rawItems R \<or>
   (\<exists>item. rawItems R' = Map_set (index b) item (rawItems R))"
  by (auto simp: replay_block_def Let_def split: sum.splits if_splits)

lemma replay_block_keys:
  "replay_block P S R b = Inr R' \<Longrightarrow>
   fst ` set (rawItems R') \<subseteq> insert (index b) (fst ` set (rawItems R))"
proof -
  assume "replay_block P S R b = Inr R'"
  then consider "rawItems R' = rawItems R"
    | item where "rawItems R' = Map_set (index b) item (rawItems R)"
    using replay_block_rawItems by blast
  then show ?thesis
  proof cases
    case 1
    then show ?thesis by (simp add: subset_insertI)
  next
    case 2
    then show ?thesis by (simp only: Map_set_keys subset_refl)
  qed
qed

lemma replay_loop_keys:
  "replay_loop P S R blocks = Inr R' \<Longrightarrow>
   fst ` set (rawItems R') \<subseteq> fst ` set (rawItems R) \<union> index ` set blocks"
proof (induction blocks arbitrary: R)
  case Nil
  then show ?case by simp
next
  case (Cons b blocks)
  from Cons.prems obtain R1 where 1: "replay_block P S R b = Inr R1"
    and 2: "replay_loop P S R1 blocks = Inr R'"
    by (auto split: sum.splits)
  show ?case using replay_block_keys [OF 1] Cons.IH [OF 2] by (simp add: subset_iff) blast
qed

lemma replay_chain_keys:
  assumes inv: "ledger_inv S" and R: "replay_chain P S = Inr R"
  shows "\<forall>j \<in> fst ` set (rawItems R). 0 < j \<and> j < int (length (chain S))"
proof
  fix j assume "j \<in> fst ` set (rawItems R)"
  then have "j \<in> index ` set (drop 1 (chain S))"
    using replay_loop_keys [OF R [unfolded replay_chain_def]] by auto
  then obtain x where x: "x \<in> set (drop 1 (chain S))" "j = index x" by blast
  then obtain n where n: "n < length (drop 1 (chain S))" "drop 1 (chain S) ! n = x"
    by (auto simp: in_set_conv_nth)
  then have "chain S ! (1 + n) = x" "1 + n < length (chain S)" by auto
  then have "index x = int (1 + n)" using ledger_inv_nth [OF inv, of "1 + n"] by simp
  then show "0 < j \<and> j < int (length (chain S))"
    using x(2) \<open>1 + n < length (chain S)\<close> by simp
qed

lemma action_record_props:
  "truthy (action_record ty t now u d)"
  "has_type (action_record ty t now u d) ty' \<longleftrightarrow> ty = ty'"
  "targetIndex (action_record ty t now u d) = Some (JNum t)"
  "has_target (action_record ty t now u d) \<longleftrightarrow> t \<noteq> 0"
  by (auto simp: action_record_def has_type_def targetIndex_def has_target_def js_def)

lemma type_names_differ:
  "js ''LOCK_EVIDENCE'' \<noteq> js ''UNLOCK_EVIDENCE''"
  "js ''LOCK_EVIDENCE'' \<noteq> js ''TOMBSTONE''"
  "js ''UNLOCK_EVIDENCE'' \<noteq> js ''TOMBSTONE''"
  by (simp_all add: js_def)

lemma replay_block_evidence:
  "decrypt P S (index b) = Inr d \<Longrightarrow> is_evidence d \<Longrightarrow>
   replay_block P S R b = Inr (R\<lparr>rawItems := Map_set (index b) (make_item b d) (rawItems R)\<rparr>)"
proof -
  assume d: "decrypt P S (index b) = Inr d" and "is_evidence d"
  then have t: "truthy d" and na: "\<not> is_action d"
    by (simp_all add: is_evidence_def)
  show ?thesis
  proof (cases "has_target d")
    case True
    with na have "\<not> has_type d (js ''LOCK_EVIDENCE'')" "\<not> has_type d (js ''UNLOCK_EVIDENCE'')"
      "\<not> has_type d (js ''TOMBSTONE'')"
      by (simp_all add: is_action_def)
    then show ?thesis using d t by (simp add: replay_block_def Let_def)
  next
    case False
    then show ?thesis using d t by (simp add: replay_block_def Let_def)
  qed
qed

lemma untargeted_is_evidence: "is_evidence (action_record ty 0 now u d)"
  by (simp add: is_evidence_def is_action_def action_record_props)

lemma replay_block_lock:
  "decrypt P S (index b) = Inr (lock_record t now u) \<Longrightarrow> t \<noteq> 0 \<Longrightarrow>
   replay_block P S R b =
     Inr (R\<lparr>locks := insert (JNum t) (locks R),
            rawItems := Map_set (index b) (make_item b (lock_record t now u)) (rawItems R)\<rparr>)"
  by (simp add: replay_block_def lock_record_def action_record_props Let_def)

lemma replay_block_unlock:
  "decrypt P S (index b) = Inr (unlock_record t now u) \<Longrightarrow> t \<noteq> 0 \<Longrightarrow>
   replay_block P S R b =
     Inr (R\<lparr>locks := locks R - {JNum t},
            rawItems := Map_set (index b) (make_item b (unlock_record t now u)) (rawItems R)\<rparr>)"
  using type_names_differ
  by (simp add: replay_block_def unlock_record_def action_record_props Let_def)

lemma replay_block_tombstone:
  "decrypt P S (index b) = Inr (tombstone_record t now u) \<Longrightarrow> t \<noteq> 0 \<Longrightarrow>
   replay_block P S R b =
     Inr (R\<lparr>deletions := insert (JNum t) (deletions R),
            rawItems := Map_set (index b) (make_item b (tombstone_record t now u)) (rawItems R)\<rparr>)"
  using type_names_differ
  by (simp add: replay_block_def tombstone_record_def action_record_props Let_def)

lemma make_item_action:
  "make_item b (action_record ty t now u d) (js ''type'') = Some (JStr ty)"
  "make_item b (action_record ty t now u d) (js ''targetIndex'') = Some (JNum t)"
  by (simp_all add: make_item_def action_record_def js_def map_add_def)

lemma Map_set_entry: "(k, v) \<in> set (Map_set k v m)"
  by (induction m) auto

lemma decorate_keys:
  "fst ` set (decorate R) = {j \<in> fst ` set (rawItems R). JNum j \<notin> deletions R}"
  by (force simp: decorate_def image_iff)

lemma decorate_entry:
  "(j, it) \<in> set (rawItems R) \<Longrightarrow> JNum j \<notin> deletions R \<Longrightarrow>
   (j, it(js ''locked'' \<mapsto> JBool (JNum j \<in> locks R))) \<in> set (decorate R)"
  by (force simp: decorate_def image_iff)

lemma locked_not_type: "js ''locked'' \<noteq> js ''type''" "js ''locked'' \<noteq> js ''targetIndex''"
  by (simp_all add: js_def)

lemma append_step:
  assumes inv: "ledger_inv S" and key: "encryptionKey S = Some key"
    and ok: "cipher_ok P" and rd: "readable P d" and R: "replay_chain P S = Inr R"
    and S': "S' = snd (append_block P E d S)"
  shows "\<exists>b. append_block P E d S = (Inr b, S') \<and>
            chain S' = chain S @ [b] \<and> index b = int (length (chain S)) \<and>
            ledger_inv S' \<and> encryptionKey S' = Some key \<and>
            replay_chain P S' = replay_block P S' R b \<and>
            decrypt P S' (index b) = Inr d"
proof -
  obtain r where app: "append_block P E d S = (r, S')"
    using S' by (cases "append_block P E d S") simp
  from append_block_effect [OF inv key app]
  obtain b where b: "r = Inr b" "chain S' = chain S @ [b]" "index b = int (length (chain S))"
    "encryptionKey S' = Some key"
    by blast
  have app': "append_block P E d S = (Inr b, S')" using app b by simp
  have "ledger_inv S'" unfolding S' using inv by (rule ledger_inv_append)
  moreover have "replay_chain P S' = replay_block P S' R b"
    by (rule replay_chain_appended [OF inv key app' R])
  moreover have "decrypt P S' (index b) = Inr d"
    using decrypt_appended [OF inv key app ok rd] b by simp
  ultimately show ?thesis using app' b by blast
qed

lemma evidence_step:
  assumes inv: "ledger_inv S" and key: "encryptionKey S = Some key"
    and ok: "cipher_ok P" and rd: "readable P d" and R: "replay_chain P S = Inr R"
    and S': "S' = snd (append_block P E d S)" and ev: "is_evidence d"
  shows "\<exists>b. chain S' = chain S @ [b] \<and> index b = int (length (chain S)) \<and>
            ledger_inv S' \<and> encryptionKey S' = Some key \<and>
            replay_chain P S' =
              Inr (R\<lparr>rawItems := Map_set (int (length (chain S))) (make_item b d) (rawItems R)\<rparr>)"
proof -
  from append_step [OF inv key ok rd R S'] obtain b where
    b: "chain S' = chain S @ [b]" "index b = int (length (chain S))" "ledger_inv S'"
      "encryptionKey S' = Some key" "replay_chain P S' = replay_block P S' R b"
      "decrypt P S' (index b) = Inr d"
    by blast
  have "replay_block P S' R b =
      Inr (R\<lparr>rawItems := Map_set (index b) (make_item b d) (rawItems R)\<rparr>)"
    using b(6) ev by (rule replay_block_evidence)
  then show ?thesis using b by auto
qed

lemma append_then_true_fst:
  "append_block P E d S = (Inr b, S') \<Longrightarrow> append_then_true P E d S = (Inr True, S')"
  by (simp add: append_then_true_def)

lemma lock_step:
  assumes inv: "ledger_inv S" and key: "encryptionKey S = Some key"
    and ok: "cipher_ok P" and rd: "readable P (lock_record t now u)"
    and R: "replay_chain P S = Inr R"
    and S': "S' = snd (lockItem P E now t u S)" and t: "t \<noteq> 0"
  shows "\<exists>b. chain S' = chain S @ [b] \<and> index b = int (length (chain S)) \<and>
            ledger_inv S' \<and> encryptionKey S' = Some key \<and>
            replay_chain P S' =
              Inr (R\<lparr>locks := insert (JNum t) (locks R),
                     rawItems := Map_set (int (length (chain S)))
                                   (make_item b (lock_record t now u)) (rawItems R)\<rparr>)"
proof -
  have S'': "S' = snd (append_block P E (lock_record t now u) S)"
    using S' by (simp add: lockItem_def append_then_true_snd)
  from append_step [OF inv key ok rd R S''] obtain b where
    b: "chain S' = chain S @ [b]" "index b = int (length (chain S))" "ledger_inv S'"
      "encryptionKey S' = Some key" "replay_chain P S' = replay_block P S' R b"
      "decrypt P S' (index b) = Inr (lock_record t now u)"
    by blast
  show ?thesis using b replay_block_lock [OF b(6) t, of R] by auto
qed

lemma unlock_step:
  assumes inv: "ledger_inv S" and key: "encryptionKey S = Some key"
    and ok: "cipher_ok P" and rd: "readable P (unlock_record t now u)"
    and R: "replay_chain P S = Inr R"
    and S': "S' = snd (unlockItem P E now t u S)" and t: "t \<noteq> 0"
  shows "\<exists>b. chain S' = chain S @ [b] \<and> index b = int (length (chain S)) \<and>
            ledger_inv S' \<and> encryptionKey S' = Some key \<and>
            replay_chain P S' =
              Inr (R\<lparr>locks := locks R - {JNum t},
                     rawItems := Map_set (int (length (chain S)))
                                   (make_item b (unlock_record t now u)) (rawItems R)\<rparr>)"
proof -
  have S'': "S' = snd (append_block P E (unlock_record t now u) S)"
    using S' by (simp add: unlockItem_def append_then_true_snd)
  from append_step [OF inv key ok rd R S''] obtain b where
    b: "chain S' = chain S @ [b]" "index b = int (length (chain S))" "ledger_inv S'"
      "encryptionKey S' = Some key" "replay_chain P S' = replay_block P S' R b"
      "decrypt P S' (index b) = Inr (unlock_record t now u)"
    by blast
  show ?thesis using b replay_block_unlock [OF b(6) t, of R] by auto
qed

lemma initialized_ledger:
  assumes "S0 = snd (initialize P t0 mk new_SecureStorage)"
  shows "ledger_inv S0 \<and> chain S0 = [genesis t0] \<and> (\<exists>key. encryptionKey S0 = Some key) \<and>
         replay_chain P S0 = Inr \<lparr>rawItems = [], locks = {}, deletions = {}\<rparr>"
  unfolding assms
  using ledger_inv_initialize [OF ledger_inv_new, of P t0 mk]
  by (simp add: initialize_new replay_chain_def)

lemma getAllItems_replay:
  "replay_chain P S = Inr R \<Longrightarrow> getAllItems P S = Inr (rev (map snd (decorate R)))"
  by (simp add: getAllItems_def visible_def)

lemma cipher_ok_small: "cipher_ok (small_platform known)"
  by (simp add: cipher_ok_def small_platform_def)

lemma utf8_small:
  "list_all (\<lambda>c. c < 256) s \<Longrightarrow>
   utf8_decode (small_platform known) (utf8_encode (small_platform known) s) = s"
proof -
  assume "list_all (\<lambda>c. c < 256) s"
  then have "map (\<lambda>c. unat (of_nat c :: byte)) s = s"
    by (induction s) (simp_all add: unat_of_nat)
  then show ?thesis by (simp add: small_platform_def comp_def)
qed

lemma readable_small:
  assumes "map_of (map (\<lambda>v. (render v, v)) known) (dataString (small_platform known) d) = Some d"
    and "list_all (\<lambda>c. c < 256) (dataString (small_platform known) d)"
  shows "readable (small_platform known) d"
  unfolding readable_def utf8_small [OF assms(2)]
  using assms(1) by (simp add: small_platform_def)

lemmas demo_defs = demo_platform_def demo_evidence_def lock_record_def unlock_record_def
  tombstone_record_def action_record_def

lemma readable_demo:
  "readable demo_platform (demo_evidence 1)"
  "readable demo_platform (demo_evidence 2)"
  "readable demo_platform (demo_evidence 3)"
  "readable demo_platform (lock_record 2 5 (js ''u''))"
  "readable demo_platform (unlock_record 2 6 (js ''u''))"
  "readable demo_platform (tombstone_record 1 7 (js ''u''))"
  "readable demo_platform (tombstone_record 3 3 (js ''u''))"
  "readable demo_platform (violation_record (js ''70000'') PORT (js ''Port''))"
  unfolding demo_platform_def
  by (rule readable_small;
      simp add: dataString_def small_platform_def demo_defs violation_record_def maskedInput_def
        js_def dec.simps)+

lemma is_evidence_demo: "is_evidence (demo_evidence n)"
  by (simp add: is_evidence_def is_action_def has_target_def targetIndex_def demo_evidence_def js_def)

lemma three_evidence:
  assumes ok: "cipher_ok P"
    and ev: "is_evidence e1" "is_evidence e2" "is_evidence e3"
    and rd: "readable P e1" "readable P e2" "readable P e3"
    and S0: "S0 = snd (initialize P t0 masterKey new_SecureStorage)"
    and S1: "S1 = snd (append_block P E1 e1 S0)"
    and S2: "S2 = snd (append_block P E2 e2 S1)"
    and S3: "S3 = snd (append_block P E3 e3 S2)"
  shows "\<exists>key b1 b2 b3.
           ledger_inv S3 \<and> chain S3 = [genesis t0, b1, b2, b3] \<and>
           index b1 = 1 \<and> index b2 = 2 \<and> index b3 = 3 \<and>
           encryptionKey S3 = Some key \<and>
           replay_chain P S3 =
             Inr \<lparr>rawItems = [(1, make_item b1 e1), (2, make_item b2 e2), (3, make_item b3 e3)],
                  locks = {}, deletions = {}\<rparr>"
proof -
  let ?R0 = "\<lparr>rawItems = [], locks = {}, deletions = {}\<rparr>"
  from initialized_ledger [OF S0] obtain key where
    i0: "ledger_inv S0" and c0: "chain S0 = [genesis t0]" and k0: "encryptionKey S0 = Some key"
    and r0: "replay_chain P S0 = Inr ?R0"
    by blast
  from evidence_step [OF i0 k0 ok rd(1) r0 S1 ev(1)] obtain b1 where
    i1: "ledger_inv S1" and c1: "chain S1 = [genesis t0, b1]" and x1: "index b1 = 1"
    and k1: "encryptionKey S1 = Some key"
    and r1: "replay_chain P S1 = Inr (?R0\<lparr>rawItems := [(1, make_item b1 e1)]\<rparr>)"
    by (auto simp: c0)
  from evidence_step [OF i1 k1 ok rd(2) r1 S2 ev(2)] obtain b2 where
    i2: "ledger_inv S2" and c2: "chain S2 = [genesis t0, b1, b2]" and x2: "index b2 = 2"
    and k2: "encryptionKey S2 = Some key"
    and r2: "replay_chain P S2 =
               Inr (?R0\<lparr>rawItems := [(1, make_item b1 e1), (2, make_item b2 e2)]\<rparr>)"
    by (auto simp: c1)
  from evidence_step [OF i2 k2 ok rd(3) r2 S3 ev(3)] obtain b3 where
    "ledger_inv S3" "chain S3 = [genesis t0, b1, b2, b3]" "index b3 = 3"
    "encryptionKey S3 = Some key"
    "replay_chain P S3 =
               Inr (?R0\<lparr>rawItems := [(1, make_item b1 e1), (2, make_item b2 e2),
                                      (3, make_item b3 e3)]\<rparr>)"
    by (auto simp: c2)
  then show ?thesis using x1 x2 by auto
qed

lemma demo_ledger_steps:
  "demo_ledger =
     snd (append_block demo_platform (small_env 4) (demo_evidence 3)
       (snd (append_block demo_platform (small_env 3) (demo_evidence 2)
         (snd (append_block demo_platform (small_env 2) (demo_evidence 1)
           (snd (initialize demo_platform 1 (js ''key'') new_SecureStorage)))))))"
  by (simp add: demo_ledger_def run_Cons run_Nil snd_returning)

lemma demo_ledger_replay:
  "\<exists>key b1 b2 b3.
     chain demo_ledger = [genesis 1, b1, b2, b3] \<and>
     encryptionKey demo_ledger = Some key \<and>
     replay_chain demo_platform demo_ledger =
       Inr \<lparr>rawItems = [(1, make_item b1 (demo_evidence 1)), (2, make_item b2 (demo_evidence 2)),
                        (3, make_item b3 (demo_evidence 3))],
            locks = {}, deletions = {}\<rparr>"
proof -
  have ok: "cipher_ok demo_platform"
    unfolding demo_platform_def by (rule cipher_ok_small)
  from three_evidence [OF ok is_evidence_demo is_evidence_demo is_evidence_demo
      readable_demo(1) readable_demo(2) readable_demo(3) refl refl refl demo_ledger_steps]
  show ?thesis by blast
qed

lemma tombstone_step:
  assumes inv: "ledger_inv S" and key: "encryptionKey S = Some key"
    and ok: "cipher_ok P" and rd: "readable P (tombstone_record t now u)"
    and R: "replay_chain P S = Inr R"
    and S': "S' = snd (deleteItem P E now t u S)" and t: "t \<noteq> 0"
  shows "\<exists>b. deleteItem P E now t u S = (Inr True, S') \<and>
            chain S' = chain S @ [b] \<and> index b = int (length (chain S)) \<and>
            ledger_inv S' \<and> encryptionKey S' = Some key \<and>
            replay_chain P S' =
              Inr (R\<lparr>deletions := insert (JNum t) (deletions R),
                     rawItems := Map_set (int (length (chain S)))
                                   (make_item b (tombstone_record t now u)) (rawItems R)\<rparr>)"
proof -
  have S'': "S' = snd (append_block P E (tombstone_record t now u) S)"
    using S' by (simp add: deleteItem_def append_then_true_snd)
  from append_step [OF inv key ok rd R S''] obtain b where
    a: "append_block P E (tombstone_record t now u) S = (Inr b, S')"
    and b: "chain S' = chain S @ [b]" "index b = int (length (chain S))" "ledger_inv S'"
      "encryptionKey S' = Some key" "replay_chain P S' = replay_block P S' R b"
      "decrypt P S' (index b) = Inr (tombstone_record t now u)"
    by blast
  have "deleteItem P E now t u S = (Inr True, S')"
    unfolding deleteItem_def using a by (rule append_then_true_fst)
  then show ?thesis using b replay_block_tombstone [OF b(6) t, of R] by auto
qed

lemma make_item_blockIndex:
  "make_item b (action_record ty t now u d) (js ''_blockIndex'') = Some (JNum (index b))"
  by (simp add: make_item_def action_record_def js_def map_add_def)

lemma locked_not_blockIndex: "js ''locked'' \<noteq> js ''_blockIndex''"
  by (simp add: js_def)

lemma early_tombstone_ledger_replay:
  "\<exists>key b1 b2.
     ledger_inv early_tombstone_ledger \<and>
     chain early_tombstone_ledger = [genesis 1, b1, b2] \<and> index b1 = 1 \<and> index b2 = 2 \<and>
     encryptionKey early_tombstone_ledger = Some key \<and>
     replay_chain demo_platform early_tombstone_ledger =
       Inr \<lparr>rawItems = [(1, make_item b1 (demo_evidence 1)),
                        (2, make_item b2 (tombstone_record 3 3 (js ''u'')))],
            locks = {}, deletions = {JNum 3}\<rparr>"
proof -
  let ?R0 = "\<lparr>rawItems = [], locks = {}, deletions = {}\<rparr>"
  define S0 where "S0 = snd (initialize demo_platform 1 (js ''key'') new_SecureStorage)"
  define S1 where "S1 = snd (append_block demo_platform (small_env 2) (demo_evidence 1) S0)"
  have S2: "early_tombstone_ledger = snd (deleteItem demo_platform (small_env 3) 3 3 (js ''u'') S1)"
    by (simp add: early_tombstone_ledger_def run_Cons run_Nil snd_returning S0_def S1_def)
  have ok: "cipher_ok demo_platform"
    unfolding demo_platform_def by (rule cipher_ok_small)
  from initialized_ledger [OF S0_def] obtain key where
    i0: "ledger_inv S0" and c0: "chain S0 = [genesis 1]" and k0: "encryptionKey S0 = Some key"
    and r0: "replay_chain demo_platform S0 = Inr ?R0"
    by blast
  from evidence_step [OF i0 k0 ok readable_demo(1) r0 S1_def is_evidence_demo] obtain b1 where
    i1: "ledger_inv S1" and c1: "chain S1 = [genesis 1, b1]" and x1: "index b1 = 1"
    and k1: "encryptionKey S1 = Some key"
    and r1: "replay_chain demo_platform S1 =
               Inr (?R0\<lparr>rawItems := [(1, make_item b1 (demo_evidence 1))]\<rparr>)"
    by (auto simp: c0)
  have three: "(3::int) \<noteq> 0" by simp
  from tombstone_step [OF i1 k1 ok readable_demo(7) r1 S2 three] obtain b2 where
    "ledger_inv early_tombstone_ledger" "chain early_tombstone_ledger = [genesis 1, b1, b2]"
    "index b2 = 2" "encryptionKey early_tombstone_ledger = Some key"
    "replay_chain demo_platform early_tombstone_ledger =
       Inr \<lparr>rawItems = [(1, make_item b1 (demo_evidence 1)),
                        (2, make_item b2 (tombstone_record 3 3 (js ''u'')))],
            locks = {}, deletions = {JNum 3}\<rparr>"
    by (auto simp: c1)
  then show ?thesis using x1 by blast
qed

text \<open>
  C7 (as amended). On an unlocked ledger reached by awaited calls of the core,
  \<open>deleteItem(i, user)\<close> succeeds and appends one block, at the next index \<open>n\<close>; every
  block and every stored payload that was there stays as it was; and in the view read
  afterwards no item has block index \<open>i\<close>. The tombstone is visible as an item of its
  own exactly when no tombstone names its index \<open>n\<close>: it is shown when \<open>i\<close> is not \<open>n\<close>
  and no tombstone already on the ledger names \<open>n\<close>, and it is filtered out of the view
  otherwise. The entries pair each item with the index of its block; \<open>R\<close> is the replay of
  the ledger before the call.
\<close>

theorem tombstone_projection:
  assumes reach: "S = run P calls new_SecureStorage"
    and unlocked: "encryptionKey S \<noteq> None"
    and ok: "cipher_ok P"
    and rd: "readable P (tombstone_record i now user)"
    and R: "replay_chain P S = Inr R"
    and del: "deleteItem P E now i user S = (r, S')"
  shows "r = Inr True \<and>
         (\<exists>b. chain S' = chain S @ [b] \<and> index b = int (length (chain S))) \<and>
         (\<forall>j blob. Map_get (storage S) j = Some blob \<longrightarrow> Map_get (storage S') j = Some blob) \<and>
         (\<exists>entries.
            visible P S' = Inr entries \<and>
            getAllItems P S' = Inr (rev (map snd entries)) \<and>
            i \<notin> fst ` set entries \<and>
            (i \<noteq> int (length (chain S)) \<and> JNum (int (length (chain S))) \<notin> deletions R \<longrightarrow>
               (\<exists>item. (int (length (chain S)), item) \<in> set entries \<and>
                  item (js ''type'') = Some (JStr (js ''TOMBSTONE'')) \<and>
                  item (js ''targetIndex'') = Some (JNum i))) \<and>
            (i = int (length (chain S)) \<or> JNum (int (length (chain S))) \<in> deletions R \<longrightarrow>
               int (length (chain S)) \<notin> fst ` set entries))"
proof -
  let ?n = "int (length (chain S))"
  let ?t = "tombstone_record i now user"
  have inv: "ledger_inv S"
    unfolding reach by (intro ledger_inv_run ledger_inv_new)
  from unlocked obtain key where key: "encryptionKey S = Some key" by auto
  from inv key have pos: "0 < ?n" by (auto simp: ledger_inv_def)
  obtain ra where app: "append_block P E ?t S = (ra, S')" and r: "r = map_sum id (\<lambda>b. True) ra"
    using del by (auto simp: deleteItem_def append_then_true_def split: prod.splits sum.splits)
  from append_block_effect [OF inv key app]
  obtain b where b: "ra = Inr b" "chain S' = chain S @ [b]" "index b = ?n"
    by blast
  have app': "append_block P E ?t S = (Inr b, S')" using app b by simp
  have dec: "decrypt P S' (index b) = Inr ?t"
    using decrypt_appended [OF inv key app ok rd] b by simp
  have keysR: "\<forall>j \<in> fst ` set (rawItems R). 0 < j \<and> j < ?n"
    by (rule replay_chain_keys [OF inv R])
  define item where "item = make_item b ?t"
  have item: "item (js ''type'') = Some (JStr (js ''TOMBSTONE''))"
    "item (js ''targetIndex'') = Some (JNum i)"
    by (simp_all add: item_def tombstone_record_def make_item_action)
  obtain R' where R': "replay_chain P S' = Inr R'"
    and raw: "rawItems R' = Map_set ?n item (rawItems R)"
    and dels: "deletions R' = (if i = 0 then deletions R else insert (JNum i) (deletions R))"
  proof (cases "i = 0")
    case True
    have "replay_chain P S' =
          Inr (R\<lparr>rawItems := Map_set (index b) (make_item b ?t) (rawItems R)\<rparr>)"
      unfolding replay_chain_appended [OF inv key app' R]
      using dec True
      by (intro replay_block_evidence) (simp_all add: tombstone_record_def untargeted_is_evidence)
    then show ?thesis using that True b by (simp add: item_def)
  next
    case False
    have "replay_chain P S' =
          Inr (R\<lparr>deletions := insert (JNum i) (deletions R),
                 rawItems := Map_set (index b) (make_item b ?t) (rawItems R)\<rparr>)"
      unfolding replay_chain_appended [OF inv key app' R]
      using dec False by (rule replay_block_tombstone)
    then show ?thesis using that False b by (simp add: item_def)
  qed
  have vis: "visible P S' = Inr (decorate R')"
    by (simp add: visible_def R')
  have absent: "i \<notin> fst ` set (decorate R')"
  proof (cases "i = 0")
    case True
    have "fst ` set (rawItems R') = insert ?n (fst ` set (rawItems R))"
      unfolding raw by (rule Map_set_keys)
    then have "0 \<notin> fst ` set (rawItems R')"
      using keysR inv key by (auto simp: ledger_inv_def)
    then show ?thesis using True by (simp add: decorate_keys)
  next
    case False
    then show ?thesis by (simp add: decorate_keys dels)
  qed
  have shown: "\<exists>it. (?n, it) \<in> set (decorate R') \<and>
          it (js ''type'') = Some (JStr (js ''TOMBSTONE'')) \<and>
          it (js ''targetIndex'') = Some (JNum i)"
    if "i \<noteq> ?n" "JNum ?n \<notin> deletions R"
  proof -
    have "(?n, item) \<in> set (rawItems R')"
      unfolding raw by (rule Map_set_entry)
    moreover have "JNum ?n \<notin> deletions R'"
      using that by (simp add: dels)
    ultimately have "(?n, item(js ''locked'' \<mapsto> JBool (JNum ?n \<in> locks R'))) \<in> set (decorate R')"
      by (rule decorate_entry)
    moreover have "(item(js ''locked'' \<mapsto> JBool (JNum ?n \<in> locks R'))) (js ''type'') =
        Some (JStr (js ''TOMBSTONE''))"
      "(item(js ''locked'' \<mapsto> JBool (JNum ?n \<in> locks R'))) (js ''targetIndex'') =
        Some (JNum i)"
      using locked_not_type by (simp_all add: item)
    ultimately show ?thesis by blast
  qed
  have hidden: "?n \<notin> fst ` set (decorate R')"
    if "i = ?n \<or> JNum ?n \<in> deletions R"
  proof -
    have "JNum ?n \<in> deletions R'"
      using that pos by (auto simp: dels)
    then show ?thesis by (simp add: decorate_keys)
  qed
  have kept: "Map_get (storage S') j = Some blob" if "Map_get (storage S) j = Some blob" for j blob
  proof -
    have "j \<noteq> ?n" using stored_below [OF inv that] by simp
    then show ?thesis using stored_kept [OF inv key app] that by simp
  qed
  have "r = Inr True" using r b by simp
  moreover have "\<exists>b. chain S' = chain S @ [b] \<and> index b = ?n" using b by blast
  moreover have "\<exists>entries.
            visible P S' = Inr entries \<and>
            getAllItems P S' = Inr (rev (map snd entries)) \<and>
            i \<notin> fst ` set entries \<and>
            (i \<noteq> ?n \<and> JNum ?n \<notin> deletions R \<longrightarrow>
               (\<exists>item. (?n, item) \<in> set entries \<and>
                  item (js ''type'') = Some (JStr (js ''TOMBSTONE'')) \<and>
                  item (js ''targetIndex'') = Some (JNum i))) \<and>
            (i = ?n \<or> JNum ?n \<in> deletions R \<longrightarrow> ?n \<notin> fst ` set entries)"
    using vis absent shown hidden
    by (intro exI [of _ "decorate R'"]) (simp add: getAllItems_def)
  ultimately show ?thesis using kept by blast
qed

theorem tombstone_projection_witness:
  "fst (deleteItem demo_platform (small_env 7) 7 1 (js ''u'') demo_ledger) = Inr True \<and>
   (\<exists>entries.
      visible demo_platform (snd (deleteItem demo_platform (small_env 7) 7 1 (js ''u'') demo_ledger)) =
        Inr entries \<and>
      1 \<notin> fst ` set entries \<and>
      (\<exists>item. (4, item) \<in> set entries \<and>
         item (js ''type'') = Some (JStr (js ''TOMBSTONE'')))) \<and>
   (\<exists>entries.
      visible demo_platform
        (snd (deleteItem demo_platform (small_env 7) 7 1 (js ''u'') early_tombstone_ledger)) =
        Inr entries \<and>
      1 \<notin> fst ` set entries \<and> 3 \<notin> fst ` set entries)"
proof -
  let ?d = "deleteItem demo_platform (small_env 7) 7 1 (js ''u'') demo_ledger"
  let ?e = "deleteItem demo_platform (small_env 7) 7 1 (js ''u'') early_tombstone_ledger"
  from demo_ledger_replay obtain key b1 b2 b3 R where
    ch: "chain demo_ledger = [genesis 1, b1, b2, b3]"
    and key: "encryptionKey demo_ledger = Some key"
    and R: "replay_chain demo_platform demo_ledger = Inr R"
    and dels: "deletions R = {}"
    by force
  from early_tombstone_ledger_replay obtain key' c1 c2 Q where
    ch': "chain early_tombstone_ledger = [genesis 1, c1, c2]"
    and key': "encryptionKey early_tombstone_ledger = Some key'"
    and Q: "replay_chain demo_platform early_tombstone_ledger = Inr Q"
    and dels': "deletions Q = {JNum 3}"
    by force
  have ok: "cipher_ok demo_platform"
    unfolding demo_platform_def by (rule cipher_ok_small)
  have unlocked: "encryptionKey demo_ledger \<noteq> None" using key by simp
  have unlocked': "encryptionKey early_tombstone_ledger \<noteq> None" using key' by simp
  have del: "?d = (fst ?d, snd ?d)" by simp
  have del': "?e = (fst ?e, snd ?e)" by simp
  have 1: "fst ?d = Inr True \<and>
   (\<exists>entries. visible demo_platform (snd ?d) = Inr entries \<and>
      1 \<notin> fst ` set entries \<and>
      (\<exists>item. (4, item) \<in> set entries \<and>
         item (js ''type'') = Some (JStr (js ''TOMBSTONE''))))"
    using tombstone_projection [OF demo_ledger_def unlocked ok readable_demo(6) R del] ch dels
    by auto
  have 2: "\<exists>entries. visible demo_platform (snd ?e) = Inr entries \<and>
      1 \<notin> fst ` set entries \<and> 3 \<notin> fst ` set entries"
    using tombstone_projection [OF early_tombstone_ledger_def unlocked' ok readable_demo(6) Q del']
      ch' dels'
    by auto
  from 1 2 show ?thesis by blast
qed

text \<open>
  C7, the claim as stated, fails: \<open>deleteItem\<close> takes any target index. On the ledger
  that holds one evidence record (block 1) and a tombstone naming index 3 (block 2),
  \<open>deleteItem(1, u)\<close> succeeds and appends its tombstone as block 3; the view then holds
  a single item, the earlier tombstone of block 2: the new tombstone is itself filtered
  out as deleted.
\<close>

theorem tombstone_hidden_by_earlier_tombstone:
  "fst (deleteItem demo_platform (small_env 7) 7 1 (js ''u'') early_tombstone_ledger) = Inr True \<and>
   map index
     (chain (snd (deleteItem demo_platform (small_env 7) 7 1 (js ''u'') early_tombstone_ledger))) =
     [0, 1, 2, 3] \<and>
   decrypt demo_platform
     (snd (deleteItem demo_platform (small_env 7) 7 1 (js ''u'') early_tombstone_ledger)) 3 =
     Inr (tombstone_record 1 7 (js ''u'')) \<and>
   (\<exists>item.
      getAllItems demo_platform
        (snd (deleteItem demo_platform (small_env 7) 7 1 (js ''u'') early_tombstone_ledger)) =
        Inr [item] \<and>
      item (js ''_blockIndex'') = Some (JNum 2) \<and>
      item (js ''type'') = Some (JStr (js ''TOMBSTONE'')) \<and>
      item (js ''targetIndex'') = Some (JNum 3))"
proof -
  let ?S = "early_tombstone_ledger"
  let ?S' = "snd (deleteItem demo_platform (small_env 7) 7 1 (js ''u'') ?S)"
  from early_tombstone_ledger_replay obtain key b1 b2 where
    inv: "ledger_inv ?S" and ch: "chain ?S = [genesis 1, b1, b2]"
    and x: "index b1 = 1" "index b2 = 2"
    and key: "encryptionKey ?S = Some key"
    and R: "replay_chain demo_platform ?S =
       Inr \<lparr>rawItems = [(1, make_item b1 (demo_evidence 1)),
                        (2, make_item b2 (tombstone_record 3 3 (js ''u'')))],
            locks = {}, deletions = {JNum 3}\<rparr>"
    by blast
  have ok: "cipher_ok demo_platform"
    unfolding demo_platform_def by (rule cipher_ok_small)
  have one: "(1::int) \<noteq> 0" by simp
  from tombstone_step [OF inv key ok readable_demo(6) R refl one] obtain b3 where
    d: "deleteItem demo_platform (small_env 7) 7 1 (js ''u'') ?S = (Inr True, ?S')"
    and ch': "chain ?S' = [genesis 1, b1, b2, b3]" and x3: "index b3 = 3"
    and R': "replay_chain demo_platform ?S' =
       Inr \<lparr>rawItems = [(1, make_item b1 (demo_evidence 1)),
                        (2, make_item b2 (tombstone_record 3 3 (js ''u''))),
                        (3, make_item b3 (tombstone_record 1 7 (js ''u'')))],
            locks = {}, deletions = {JNum 1, JNum 3}\<rparr>"
    by (auto simp: ch)
  have app: "append_block demo_platform (small_env 7) (tombstone_record 1 7 (js ''u'')) ?S =
      (fst (append_block demo_platform (small_env 7) (tombstone_record 1 7 (js ''u'')) ?S), ?S')"
    by (simp add: deleteItem_def append_then_true_snd)
  have dec: "decrypt demo_platform ?S' 3 = Inr (tombstone_record 1 7 (js ''u''))"
    using decrypt_appended [OF inv key app ok readable_demo(6)] by (simp add: ch)
  let ?item = "(make_item b2 (tombstone_record 3 3 (js ''u'')))(js ''locked'' \<mapsto> JBool False)"
  have "getAllItems demo_platform ?S' = Inr [?item]"
    unfolding getAllItems_replay [OF R'] by (simp add: decorate_def)
  moreover have "?item (js ''_blockIndex'') = Some (JNum 2)"
    "?item (js ''type'') = Some (JStr (js ''TOMBSTONE''))"
    "?item (js ''targetIndex'') = Some (JNum 3)"
    using locked_not_type locked_not_blockIndex
    by (simp_all add: tombstone_record_def make_item_action make_item_blockIndex x)
  moreover have "fst (deleteItem demo_platform (small_env 7) 7 1 (js ''u'') ?S) = Inr True"
    using arg_cong [OF d, of fst] by (simp only: fst_conv)
  moreover have "map index (chain ?S') = [0, 1, 2, 3]"
    by (simp add: ch' x x3 genesis_def)
  ultimately show ?thesis using dec by blast
qed

text \<open>
  C6. Initialise a fresh ledger, append three evidence records (they get the indices
  1 to 3) and lock item 2. The view then holds, newest first, the lock record as an item
  of its own and the three evidence items, with \<open>locked\<close> true on item 2 and false on
  all others. After unlocking item 2 the view holds the unlock record, the lock record
  and the three evidence items, all with \<open>locked\<close> false.
\<close>

theorem lock_state_projection:
  assumes ok: "cipher_ok P"
    and ev: "is_evidence e1" "is_evidence e2" "is_evidence e3"
    and rd: "readable P e1" "readable P e2" "readable P e3"
    and rdl: "readable P (lock_record 2 t4 user)"
    and rdu: "readable P (unlock_record 2 t5 user)"
    and S0: "S0 = snd (initialize P t0 masterKey new_SecureStorage)"
    and S1: "S1 = snd (append_block P E1 e1 S0)"
    and S2: "S2 = snd (append_block P E2 e2 S1)"
    and S3: "S3 = snd (append_block P E3 e3 S2)"
    and S4: "S4 = snd (lockItem P E4 t4 2 user S3)"
    and S5: "S5 = snd (unlockItem P E5 t5 2 user S4)"
  shows "map index (chain S5) = [0, 1, 2, 3, 4, 5] \<and>
         take 5 (chain S5) = chain S4 \<and>
         getAllItems P S4 =
           Inr [(make_item (chain S5 ! 4) (lock_record 2 t4 user))(js ''locked'' \<mapsto> JBool False),
                (make_item (chain S5 ! 3) e3)(js ''locked'' \<mapsto> JBool False),
                (make_item (chain S5 ! 2) e2)(js ''locked'' \<mapsto> JBool True),
                (make_item (chain S5 ! 1) e1)(js ''locked'' \<mapsto> JBool False)] \<and>
         getAllItems P S5 =
           Inr [(make_item (chain S5 ! 5) (unlock_record 2 t5 user))(js ''locked'' \<mapsto> JBool False),
                (make_item (chain S5 ! 4) (lock_record 2 t4 user))(js ''locked'' \<mapsto> JBool False),
                (make_item (chain S5 ! 3) e3)(js ''locked'' \<mapsto> JBool False),
                (make_item (chain S5 ! 2) e2)(js ''locked'' \<mapsto> JBool False),
                (make_item (chain S5 ! 1) e1)(js ''locked'' \<mapsto> JBool False)]"
proof -
  from three_evidence [OF ok ev rd S0 S1 S2 S3] obtain key b1 b2 b3 where
    i3: "ledger_inv S3" and c3: "chain S3 = [genesis t0, b1, b2, b3]"
    and x1: "index b1 = 1" and x2: "index b2 = 2" and x3: "index b3 = 3"
    and k3: "encryptionKey S3 = Some key"
    and r3: "replay_chain P S3 =
               Inr \<lparr>rawItems = [(1, make_item b1 e1), (2, make_item b2 e2), (3, make_item b3 e3)],
                    locks = {}, deletions = {}\<rparr>"
    by blast
  have two: "(2::int) \<noteq> 0" by simp
  from lock_step [OF i3 k3 ok rdl r3 S4 two] obtain b4 where
    i4: "ledger_inv S4" and c4: "chain S4 = [genesis t0, b1, b2, b3, b4]" and x4: "index b4 = 4"
    and k4: "encryptionKey S4 = Some key"
    and r4: "replay_chain P S4 =
               Inr \<lparr>rawItems = [(1, make_item b1 e1), (2, make_item b2 e2), (3, make_item b3 e3),
                                (4, make_item b4 (lock_record 2 t4 user))],
                    locks = {JNum 2}, deletions = {}\<rparr>"
    by (auto simp: c3)
  from unlock_step [OF i4 k4 ok rdu r4 S5 two] obtain b5 where
    c5: "chain S5 = [genesis t0, b1, b2, b3, b4, b5]" and x5: "index b5 = 5"
    and r5: "replay_chain P S5 =
               Inr \<lparr>rawItems = [(1, make_item b1 e1), (2, make_item b2 e2), (3, make_item b3 e3),
                                (4, make_item b4 (lock_record 2 t4 user)),
                                (5, make_item b5 (unlock_record 2 t5 user))],
                    locks = {}, deletions = {}\<rparr>"
    by (auto simp: c4)
  have "map index (chain S5) = [0, 1, 2, 3, 4, 5]"
    by (simp add: c5 x1 x2 x3 x4 x5 genesis_def)
  moreover have "take 5 (chain S5) = chain S4"
    by (simp add: c5 c4)
  moreover have "getAllItems P S4 =
           Inr [(make_item (chain S5 ! 4) (lock_record 2 t4 user))(js ''locked'' \<mapsto> JBool False),
                (make_item (chain S5 ! 3) e3)(js ''locked'' \<mapsto> JBool False),
                (make_item (chain S5 ! 2) e2)(js ''locked'' \<mapsto> JBool True),
                (make_item (chain S5 ! 1) e1)(js ''locked'' \<mapsto> JBool False)]"
    unfolding getAllItems_replay [OF r4] by (simp add: decorate_def c5)
  moreover have "getAllItems P S5 =
           Inr [(make_item (chain S5 ! 5) (unlock_record 2 t5 user))(js ''locked'' \<mapsto> JBool False),
                (make_item (chain S5 ! 4) (lock_record 2 t4 user))(js ''locked'' \<mapsto> JBool False),
                (make_item (chain S5 ! 3) e3)(js ''locked'' \<mapsto> JBool False),
                (make_item (chain S5 ! 2) e2)(js ''locked'' \<mapsto> JBool False),
                (make_item (chain S5 ! 1) e1)(js ''locked'' \<mapsto> JBool False)]"
    unfolding getAllItems_replay [OF r5] by (simp add: decorate_def c5)
  ultimately show ?thesis by blast
qed

theorem lock_state_projection_witness:
  "map (\<lambda>item. item (js ''locked''))
     (projr (getAllItems demo_platform
        (snd (lockItem demo_platform (small_env 5) 5 2 (js ''u'') demo_ledger)))) =
     [Some (JBool False), Some (JBool False), Some (JBool True), Some (JBool False)] \<and>
   map (\<lambda>item. item (js ''locked''))
     (projr (getAllItems demo_platform
        (snd (unlockItem demo_platform (small_env 6) 6 2 (js ''u'')
           (snd (lockItem demo_platform (small_env 5) 5 2 (js ''u'') demo_ledger)))))) =
     [Some (JBool False), Some (JBool False), Some (JBool False), Some (JBool False),
      Some (JBool False)]"
proof -
  have ok: "cipher_ok demo_platform"
    unfolding demo_platform_def by (rule cipher_ok_small)
  show ?thesis
    using lock_state_projection [where ?E4.0 = "small_env 5" and ?E5.0 = "small_env 6",
        OF ok is_evidence_demo is_evidence_demo is_evidence_demo
        readable_demo(1) readable_demo(2) readable_demo(3) readable_demo(4) readable_demo(5)
        refl refl refl demo_ledger_steps refl refl]
    by simp
qed

section \<open>Properties of the matcher\<close>

lemma starts_set:
  "set (starts p s) = insert (p, s) {(Some c, v) | u c v. s = u @ c # v}"
proof (induction s arbitrary: p)
  case Nil
  then show ?case by simp
next
  case (Cons x xs)
  have "{(Some c, v) | u c v. x # xs = u @ c # v} =
        insert (Some x, xs) {(Some c, v) | u c v. xs = u @ c # v}"
    by (auto simp: Cons_eq_append_conv)
  then show ?case using Cons.IH [of "Some x"] by simp
qed

lemma regex_test_iff:
  "regex_test r s \<longleftrightarrow> (\<exists>st \<in> set (starts None s). rmatch r st \<noteq> [])"
  by (simp add: regex_test_def list_ex_iff)

lemma regex_test_Bol: "regex_test (Seq Bol r) s \<longleftrightarrow> rmatch r (None, s) \<noteq> []"
  by (auto simp: regex_test_iff starts_set)

lemma rmatch_Seq_fst: "rmatch (Seq a b) st \<noteq> [] \<Longrightarrow> rmatch a st \<noteq> []"
  by (cases "rmatch a st") auto

lemma regex_test_Seq_fst: "regex_test (Seq a b) s \<Longrightarrow> regex_test a s"
  unfolding regex_test_iff using rmatch_Seq_fst by blast

lemma regex_test_WordB: "regex_test (Seq WordB r) s \<Longrightarrow> regex_test r s"
  by (auto simp: regex_test_iff split: if_splits)

lemma regex_test_Chr: "regex_test (Chr P) s \<longleftrightarrow> (\<exists>c \<in> set s. P c)"
proof
  assume "regex_test (Chr P) s"
  then obtain st where st: "st \<in> set (starts None s)" and m: "rmatch (Chr P) st \<noteq> []"
    by (auto simp: regex_test_iff)
  obtain p v where pv: "st = (p, v)" by (cases st)
  from m pv obtain c cs where v: "v = c # cs" and "P c"
    by (cases v) (auto split: if_splits)
  from st pv v have "c \<in> set s" by (auto simp: starts_set)
  with \<open>P c\<close> show "\<exists>c \<in> set s. P c" by blast
next
  assume "\<exists>c \<in> set s. P c"
  then obtain c where "c \<in> set s" "P c" by blast
  then obtain u v where s: "s = u @ c # v" by (auto simp: in_set_conv_decomp)
  have "(if u = [] then None else Some (last u), c # v) \<in> set (starts None s)"
    unfolding starts_set s by (cases u rule: rev_cases) auto
  moreover have "rmatch (Chr P) (if u = [] then None else Some (last u), c # v) \<noteq> []"
    using \<open>P c\<close> by simp
  ultimately show "regex_test (Chr P) s" unfolding regex_test_iff by blast
qed

lemma star_run_set:
  "set (star_run P (p, s)) =
     {(if u = [] then p else Some (last u), v) | u v. s = u @ v \<and> list_all P u}"
proof (induction s arbitrary: p)
  case Nil
  then show ?case by auto
next
  case (Cons x xs)
  show ?case
  proof (cases "P x")
    case True
    have "{(if u = [] then p else Some (last u), v) | u v. x # xs = u @ v \<and> list_all P u} =
          insert (p, x # xs)
            {(if u = [] then Some x else Some (last u), v) | u v. xs = u @ v \<and> list_all P u}"
      (is "?L = ?R")
    proof (intro set_eqI iffI)
      fix st assume "st \<in> ?L"
      then obtain u v where uv: "x # xs = u @ v" "list_all P u"
        "st = (if u = [] then p else Some (last u), v)" by blast
      show "st \<in> ?R"
      proof (cases u)
        case Nil
        with uv show ?thesis by simp
      next
        case (Cons y u')
        with uv have "xs = u' @ v" "list_all P u'" "y = x" by auto
        moreover have "st = (if u' = [] then Some x else Some (last u'), v)"
          using uv Cons \<open>y = x\<close> by auto
        ultimately show ?thesis by blast
      qed
    next
      fix st assume "st \<in> ?R"
      then consider "st = (p, x # xs)"
        | u v where "xs = u @ v" "list_all P u"
            "st = (if u = [] then Some x else Some (last u), v)" by blast
      then show "st \<in> ?L"
      proof cases
        case 1
        then have "x # xs = [] @ (x # xs) \<and> list_all P [] \<and>
           st = (if ([]::jsstring) = [] then p else Some (last []), x # xs)" by simp
        then show ?thesis by blast
      next
        case 2
        then have "x # xs = (x # u) @ v \<and> list_all P (x # u) \<and>
           st = (if x # u = [] then p else Some (last (x # u)), v)"
          using True by auto
        then show ?thesis by blast
      qed
    qed
    then show ?thesis using True Cons.IH [of "Some x"] by simp
  next
    case False
    have "{(if u = [] then p else Some (last u), v) | u v. x # xs = u @ v \<and> list_all P u} =
          {(p, x # xs)}"
      using False by (auto simp: Cons_eq_append_conv)
    then show ?thesis using False by simp
  qed
qed

lemma rmatch_Plus_Eol:
  "rmatch (Seq (Plus P) (Seq Eol Eps)) (p, s) \<noteq> [] \<longleftrightarrow> s \<noteq> [] \<and> list_all P s"
proof (cases s)
  case Nil
  then show ?thesis by simp
next
  case (Cons x xs)
  show ?thesis
  proof (cases "P x")
    case False
    then show ?thesis using Cons by simp
  next
    case True
    have "rmatch (Seq (Plus P) (Seq Eol Eps)) (p, s) \<noteq> [] \<longleftrightarrow>
          (\<exists>st \<in> set (star_run P (Some x, xs)). snd st = [])"
      using Cons True by (auto split: if_splits)
    also have "\<dots> \<longleftrightarrow> list_all P xs"
      unfolding star_run_set by auto
    finally show ?thesis using Cons True by simp
  qed
qed

lemma anchored_class:
  "regex_test (seqs [Bol, Plus P, Eol]) s \<longleftrightarrow> s \<noteq> [] \<and> list_all P s"
  unfolding seqs_def by (simp only: foldr.simps o_apply id_apply regex_test_Bol rmatch_Plus_Eol)


lemma lit_Nil: "lit [] = Eps"
  by (simp add: lit_def seqs_def)

lemma lit_Cons: "lit (c # w) = Seq (ch c) (lit w)"
  by (simp add: lit_def seqs_def)

lemma liti_Nil: "liti [] = Eps"
  by (simp add: liti_def seqs_def)

lemma liti_Cons: "liti (c # w) = Seq (chi c) (liti w)"
  by (simp add: liti_def seqs_def)

lemma rmatch_lit: "rmatch (lit w) (p, s) \<noteq> [] \<longleftrightarrow> prefix w s"
proof (induction w arbitrary: p s)
  case Nil
  then show ?case by (simp add: lit_Nil)
next
  case (Cons c w)
  show ?case
  proof (cases s)
    case Nil
    then show ?thesis by (simp add: lit_Cons ch_def)
  next
    case (Cons x xs)
    then show ?thesis using Cons.IH [of "Some x" xs]
      by (auto simp: lit_Cons ch_def)
  qed
qed

lemma rmatch_liti: "prefix w s \<Longrightarrow> rmatch (liti w) (p, s) \<noteq> []"
proof (induction w arbitrary: p s)
  case Nil
  then show ?case by (simp add: liti_Nil)
next
  case (Cons c w)
  then obtain xs where s: "s = c # xs" and "prefix w xs"
    by (cases s) auto
  then show ?case using Cons.IH [of xs "Some c"]
    by (simp add: liti_Cons chi_def)
qed

lemma sublist_starts:
  "sublist w s \<longleftrightarrow> (\<exists>st \<in> set (starts None s). prefix w (snd st))"
proof
  assume "sublist w s"
  then obtain ps ss where s: "s = ps @ w @ ss" by (auto simp: sublist_def)
  show "\<exists>st \<in> set (starts None s). prefix w (snd st)"
  proof (cases ps rule: rev_cases)
    case Nil
    then show ?thesis using s by (auto simp: starts_set)
  next
    case (snoc u c)
    then have "s = u @ c # (w @ ss)" using s by simp
    then have "(Some c, w @ ss) \<in> set (starts None s)"
      unfolding starts_set by blast
    then show ?thesis by force
  qed
next
  assume "\<exists>st \<in> set (starts None s). prefix w (snd st)"
  then consider "prefix w s" | u c v where "s = u @ c # v" "prefix w v"
    by (auto simp: starts_set)
  then show "sublist w s"
  proof cases
    case 1
    then show ?thesis by (metis prefix_imp_sublist)
  next
    case 2
    then obtain zs where "v = w @ zs" by (auto simp: prefix_def)
    then have "s = (u @ [c]) @ w @ zs" using 2 by simp
    then show ?thesis unfolding sublist_def by blast
  qed
qed

lemma regex_test_lit: "regex_test (lit w) s \<longleftrightarrow> sublist w s"
  unfolding regex_test_iff sublist_starts
  by (metis rmatch_lit prod.collapse)

lemma regex_test_liti: "sublist w s \<Longrightarrow> regex_test (liti w) s"
  unfolding regex_test_iff sublist_starts
  by (metis rmatch_liti prod.collapse)

lemma lit_needs: "regex_test (lit w) s \<Longrightarrow> set w \<subseteq> set s"
  by (simp add: regex_test_lit set_mono_sublist)

lemma liti_needs:
  "regex_test (liti (x # w)) s \<Longrightarrow> \<exists>c \<in> set s. fold_case c = fold_case x"
  unfolding liti_Cons chi_def
  by (drule regex_test_Seq_fst) (simp add: regex_test_Chr)

lemma sql_pair_needs:
  "regex_test (sql_pair (x # a) b) s \<Longrightarrow> \<exists>c \<in> set s. fold_case c = fold_case (of_char x)"
proof -
  assume "regex_test (sql_pair (x # a) b) s"
  then have "regex_test (Seq WordB (Seq (liti (of_char x # js a)) (seqs [WordB, Star dot, WordB, liti (js b), WordB]))) s"
    by (simp add: sql_pair_def seqs_def js_def)
  then have "regex_test (liti (of_char x # js a)) s"
    by (blast dest: regex_test_WordB regex_test_Seq_fst)
  then show ?thesis by (rule liti_needs)
qed

lemmas char_defs = in_range_def is_digit_def is_upper_def is_lower_def is_word_char_def
  is_line_terminator_def is_white_space_def fold_case_def is_control_def dot_def hex_upper_def

lemma list_ex_Cons: "list_ex P (x # xs) \<longleftrightarrow> P x \<or> list_ex P xs"
  by (simp add: list_ex_iff)

lemma list_ex_Nil: "list_ex P [] \<longleftrightarrow> False"
  by (simp add: list_ex_iff)

lemma no_attack_in_digits_and_dots:
  assumes "\<forall>c \<in> set s. is_digit c \<or> c = 46"
  shows "\<not> list_ex (\<lambda>r. regex_test r s) ATTACK_VECTORS"
proof -
  have fold: "\<And>c k. c \<in> set s \<Longrightarrow> fold_case c = k \<Longrightarrow> is_digit k \<or> k = 46"
    using assms by (auto simp: char_defs)
  have mem: "\<And>k. k \<in> set s \<Longrightarrow> is_digit k \<or> k = 46"
    using assms by blast
  show ?thesis
    unfolding ATTACK_VECTORS_def list_ex_Cons list_ex_Nil
    apply (intro notI)
    apply (elim disjE)
    apply (auto dest!: sql_pair_needs liti_needs lit_needs fold mem simp: js_def char_defs)
    done
qed

lemma in_Seq_Chr:
  "x \<in> set (rmatch (Seq (Chr Q) r) (p, s)) \<longleftrightarrow>
     (\<exists>c cs. s = c # cs \<and> Q c \<and> x \<in> set (rmatch r (Some c, cs)))"
  by (cases s) auto

lemma in_Seq_Opt_Chr:
  "x \<in> set (rmatch (Seq (Opt (Chr Q)) r) (p, s)) \<longleftrightarrow>
     (\<exists>c cs. s = c # cs \<and> Q c \<and> x \<in> set (rmatch r (Some c, cs))) \<or>
     x \<in> set (rmatch r (p, s))"
  by (cases s) auto

lemma in_Eps: "x \<in> set (rmatch Eps st) \<longleftrightarrow> x = st"
  by auto

lemma in_Alt:
  "x \<in> set (rmatch (Alt a b) st) \<longleftrightarrow> x \<in> set (rmatch a st) \<or> x \<in> set (rmatch b st)"
  by auto

lemma in_Seq:
  "x \<in> set (rmatch (Seq a b) st) \<longleftrightarrow> (\<exists>y \<in> set (rmatch a st). x \<in> set (rmatch b y))"
  by auto

lemma octet_unfold:
  "(q, r) \<in> set (rmatch octet (p, s)) \<longleftrightarrow>
     (\<exists>c. s = 50 # 53 # c # r \<and> in_range 48 53 c \<and> q = Some c) \<or>
     (\<exists>c2 c3. s = 50 # c2 # c3 # r \<and> in_range 48 52 c2 \<and> is_digit c3 \<and> q = Some c3) \<or>
     (\<exists>c1 c2 c3. s = c1 # c2 # c3 # r \<and> in_range 48 49 c1 \<and> is_digit c2 \<and> is_digit c3 \<and>
        q = Some c3) \<or>
     (\<exists>c1 c2. s = c1 # c2 # r \<and> in_range 48 49 c1 \<and> is_digit c2 \<and> q = Some c2) \<or>
     (\<exists>c2 c3. s = c2 # c3 # r \<and> is_digit c2 \<and> is_digit c3 \<and> q = Some c3) \<or>
     (\<exists>c2. s = c2 # r \<and> is_digit c2 \<and> q = Some c2)"
  unfolding octet_def seqs_def ch_def foldr.simps o_apply id_apply
  apply (simp only: in_Alt in_Seq_Chr in_Seq_Opt_Chr in_Eps)
  apply (simp only: prod.inject)
  apply fastforce
  done

lemma octet_consumes:
  assumes "(q, r) \<in> set (rmatch octet (p, s))"
  shows "\<exists>g. s = g @ r \<and> octet_group g"
proof -
  from assms consider
    c where "s = [50, 53, c] @ r" "in_range 48 53 c"
    | c2 c3 where "s = [50, c2, c3] @ r" "in_range 48 52 c2" "is_digit c3"
    | c1 c2 c3 where "s = [c1, c2, c3] @ r" "in_range 48 49 c1" "is_digit c2" "is_digit c3"
    | c1 c2 where "s = [c1, c2] @ r" "is_digit c1" "is_digit c2"
    | c1 where "s = [c1] @ r" "is_digit c1"
    unfolding octet_unfold by (auto simp: is_digit_def in_range_def)
  then show ?thesis
  proof cases
    case 1
    then have "octet_group [50, 53, c]"
      by (simp add: octet_group_def digit_group_def is_digit_def in_range_def)
    with 1 show ?thesis by blast
  next
    case 2
    then have "(c2 - 48) * 10 + (c3 - 48) \<le> 49"
      unfolding is_digit_def in_range_def by arith
    with 2 have "octet_group [50, c2, c3]"
      by (simp add: octet_group_def digit_group_def is_digit_def in_range_def)
    with 2 show ?thesis by blast
  next
    case 3
    then have "(c1 - 48) * 100 + ((c2 - 48) * 10 + (c3 - 48)) \<le> 255"
      unfolding is_digit_def in_range_def by arith
    with 3 have "octet_group [c1, c2, c3]"
      by (simp add: octet_group_def digit_group_def is_digit_def in_range_def)
    with 3 show ?thesis by blast
  next
    case 4
    then have "(c1 - 48) * 10 + (c2 - 48) \<le> 255"
      unfolding is_digit_def in_range_def by arith
    with 4 have "octet_group [c1, c2]"
      by (simp add: octet_group_def digit_group_def is_digit_def in_range_def)
    with 4 show ?thesis by blast
  next
    case 5
    then have "c1 - 48 \<le> 255"
      unfolding is_digit_def in_range_def by arith
    with 5 have "octet_group [c1]"
      by (simp add: octet_group_def digit_group_def is_digit_def in_range_def)
    with 5 show ?thesis by blast
  qed
qed

lemma dec_1: "n < 10 \<Longrightarrow> dec n = [48 + n]"
  by (simp add: dec.simps)

lemma dec_2: "10 \<le> n \<Longrightarrow> n < 100 \<Longrightarrow> dec n = [48 + n div 10, 48 + n mod 10]"
  by (subst dec.simps) (simp add: dec_1)

lemma dec_3:
  "100 \<le> n \<Longrightarrow> n < 1000 \<Longrightarrow> dec n = [48 + n div 100, 48 + n div 10 mod 10, 48 + n mod 10]"
  by (subst dec.simps) (simp add: dec_2 div_mult2_eq [symmetric])

lemma dec_digits: "list_all is_digit (dec n)"
proof (induction n rule: dec.induct)
  case (1 n)
  show ?case
  proof (cases "n < 10")
    case True
    then show ?thesis by (simp add: dec_1 is_digit_def in_range_def)
  next
    case False
    then have "list_all is_digit (dec (n div 10))" by (rule "1.IH")
    moreover have "is_digit (48 + n mod 10)" by (simp add: is_digit_def in_range_def)
    ultimately show ?thesis using False by (subst dec.simps) simp
  qed
qed


lemma digits3_ex:
  fixes n :: nat
  assumes "n < 1000"
  shows "\<exists>h t u. n = 100 * h + 10 * t + u \<and> h \<le> 9 \<and> t \<le> 9 \<and> u \<le> 9"
proof -
  define q where "q = n div 10"
  have n: "n = 10 * q + n mod 10" by (simp add: q_def)
  have q: "q = 10 * (q div 10) + q mod 10" by simp
  have u: "n mod 10 \<le> 9" and t: "q mod 10 \<le> 9"
    using mod_less_divisor [of 10 n] mod_less_divisor [of 10 q] by simp_all
  have eq: "n = 100 * (q div 10) + 10 * (q mod 10) + n mod 10"
    using n q by linarith
  then have "q div 10 \<le> 9" using assms by linarith
  with eq u t show ?thesis by blast
qed

lemma dec_digits3:
  assumes "h \<le> 9" "t \<le> 9" "u \<le> 9"
  shows "dec (100 * h + 10 * t + u) =
           (if h = 0 then (if t = 0 then [48 + u] else [48 + t, 48 + u])
            else [48 + h, 48 + t, 48 + u])"
proof -
  have d1: "\<And>k. k \<le> 9 \<Longrightarrow> dec k = [48 + k]" by (simp add: dec.simps)
  have a: "(100 * h + 10 * t + u) div 10 = 10 * h + t" using assms by simp
  have "100 * h + 10 * t + u = u + 10 * (10 * h + t)" by simp
  then have "(100 * h + 10 * t + u) mod 10 = u mod 10" by (simp only: mod_mult_self2)
  then have b: "(100 * h + 10 * t + u) mod 10 = u" using assms by simp
  have c: "(10 * h + t) div 10 = h" "(10 * h + t) mod 10 = t" using assms by simp_all
  show ?thesis
  proof (cases "h = 0")
    case True
    show ?thesis
    proof (cases "t = 0")
      case True
      with \<open>h = 0\<close> show ?thesis using assms by (simp add: d1)
    next
      case False
      have "dec (10 * t + u) = dec t @ [48 + u]"
        using False assms by (subst dec.simps) simp
      then show ?thesis using False \<open>h = 0\<close> assms by (simp add: d1)
    qed
  next
    case False
    have "dec (100 * h + 10 * t + u) = dec (10 * h + t) @ [48 + u]"
      using False a b by (subst dec.simps) simp
    also have "dec (10 * h + t) = dec h @ [48 + t]"
      using False c by (subst dec.simps) simp
    finally show ?thesis using False assms by (simp add: d1)
  qed
qed

lemma octet_accepts:
  assumes "n \<le> 255"
  shows "(Some (last (dec n)), r) \<in> set (rmatch octet (p, dec n @ r))"
proof -
  from assms digits3_ex [of n] obtain h t u where
    n: "n = 100 * h + 10 * t + u" and b: "h \<le> 9" "t \<le> 9" "u \<le> 9"
    by auto
  have r: "h \<le> 2" "h = 2 \<Longrightarrow> t \<le> 5" "h = 2 \<Longrightarrow> t = 5 \<Longrightarrow> u \<le> 5"
    using assms n by linarith+
  have d: "dec n = (if h = 0 then (if t = 0 then [48 + u] else [48 + t, 48 + u])
            else [48 + h, 48 + t, 48 + u])"
    unfolding n using b by (rule dec_digits3)
  consider "h = 0" "t = 0" | "h = 0" "t \<noteq> 0" | "h = 1" | "h = 2" "t \<le> 4" | "h = 2" "t = 5"
    using r by fastforce
  then show ?thesis
  proof cases
    case 1
    then show ?thesis unfolding octet_unfold d using b
      by (simp add: is_digit_def in_range_def)
  next
    case 2
    then show ?thesis unfolding octet_unfold d using b
      by (simp add: is_digit_def in_range_def)
  next
    case 3
    then show ?thesis unfolding octet_unfold d using b
      by (simp add: is_digit_def in_range_def)
  next
    case 4
    then show ?thesis unfolding octet_unfold d using b
      by (simp add: is_digit_def in_range_def)
  next
    case 5
    then show ?thesis unfolding octet_unfold d using b r
      by (simp add: is_digit_def in_range_def)
  qed
qed

lemma IP_V4_unfold:
  "PATTERNS_IP_V4 =
     Seq Bol
       (Seq (Seq (Seq octet (Seq (ch 46) Eps))
               (Seq (Seq octet (Seq (ch 46) Eps))
                  (Seq (Seq octet (Seq (ch 46) Eps)) Eps)))
          (Seq octet (Seq Eol Eps)))"
  by (simp add: PATTERNS_IP_V4_def seqs_def times_def numeral_3_eq_3)

lemma in_set_nonempty: "x \<in> set xs \<Longrightarrow> xs \<noteq> []"
  by auto

lemma nonempty_has_member: "xs \<noteq> [] \<Longrightarrow> \<exists>x. x \<in> set xs"
  by (cases xs) auto

lemma in_SeqI:
  "y \<in> set (rmatch a st) \<Longrightarrow> x \<in> set (rmatch b y) \<Longrightarrow> x \<in> set (rmatch (Seq a b) st)"
  by auto

lemma in_SeqE:
  assumes "x \<in> set (rmatch (Seq a b) st)"
  obtains y where "y \<in> set (rmatch a st)" "x \<in> set (rmatch b y)"
  using assms by auto

lemma dot_step:
  "(q, r) \<in> set (rmatch (Seq (ch 46) Eps) (p, s)) \<longleftrightarrow> s = 46 # r \<and> q = Some 46"
  by (cases s) (auto simp: ch_def)

lemma group_unfold:
  "(q, r) \<in> set (rmatch (Seq octet (Seq (ch 46) Eps)) (p, s)) \<longleftrightarrow>
     (\<exists>q'. (q', 46 # r) \<in> set (rmatch octet (p, s))) \<and> q = Some 46"
proof
  assume "(q, r) \<in> set (rmatch (Seq octet (Seq (ch 46) Eps)) (p, s))"
  then obtain y where y: "y \<in> set (rmatch octet (p, s))"
    and d: "(q, r) \<in> set (rmatch (Seq (ch 46) Eps) y)"
    by (rule in_SeqE)
  obtain q' s' where y': "y = (q', s')" by (cases y)
  from d have "s' = 46 # r" "q = Some 46" unfolding y' dot_step by simp_all
  with y y' show "(\<exists>q'. (q', 46 # r) \<in> set (rmatch octet (p, s))) \<and> q = Some 46"
    by blast
next
  assume "(\<exists>q'. (q', 46 # r) \<in> set (rmatch octet (p, s))) \<and> q = Some 46"
  then obtain q' where y: "(q', 46 # r) \<in> set (rmatch octet (p, s))" and q: "q = Some 46"
    by blast
  have "(q, r) \<in> set (rmatch (Seq (ch 46) Eps) (q', 46 # r))"
    unfolding dot_step using q by simp
  with y show "(q, r) \<in> set (rmatch (Seq octet (Seq (ch 46) Eps)) (p, s))"
    by (rule in_SeqI)
qed

lemma group_consumes:
  assumes "(q, r) \<in> set (rmatch (Seq octet (Seq (ch 46) Eps)) (p, s))"
  shows "\<exists>g. s = g @ 46 # r \<and> octet_group g"
  using assms octet_consumes unfolding group_unfold by blast

lemma ip_shape:
  assumes "regex_test PATTERNS_IP_V4 s"
  shows "\<exists>g1 g2 g3 g4. s = g1 @ 46 # g2 @ 46 # g3 @ 46 # g4 \<and>
           octet_group g1 \<and> octet_group g2 \<and> octet_group g3 \<and> octet_group g4"
proof -
  let ?G = "Seq octet (Seq (ch 46) Eps)"
  from assms obtain x where
    "x \<in> set (rmatch (Seq (Seq ?G (Seq ?G (Seq ?G Eps))) (Seq octet (Seq Eol Eps))) (None, s))"
    unfolding IP_V4_unfold regex_test_Bol by (blast dest: nonempty_has_member)
  then obtain y3 where t: "y3 \<in> set (rmatch (Seq ?G (Seq ?G (Seq ?G Eps))) (None, s))"
    and e: "x \<in> set (rmatch (Seq octet (Seq Eol Eps)) y3)"
    by (rule in_SeqE)
  from t obtain y1 where 1: "y1 \<in> set (rmatch ?G (None, s))"
    and t2: "y3 \<in> set (rmatch (Seq ?G (Seq ?G Eps)) y1)"
    by (rule in_SeqE)
  from t2 obtain y2 where 2: "y2 \<in> set (rmatch ?G y1)"
    and t3: "y3 \<in> set (rmatch (Seq ?G Eps) y2)"
    by (rule in_SeqE)
  from t3 obtain y3' where 3: "y3' \<in> set (rmatch ?G y2)" and "y3 \<in> set (rmatch Eps y3')"
    by (rule in_SeqE)
  then have 3: "y3 \<in> set (rmatch ?G y2)" by simp
  from e obtain y4 where 4: "y4 \<in> set (rmatch octet y3)"
    and "x \<in> set (rmatch (Seq Eol Eps) y4)"
    by (rule in_SeqE)
  then have 5: "snd y4 = []" by (auto split: if_splits)
  obtain q1 r1 q2 r2 q3 r3 q4 r4 where
    y: "y1 = (q1, r1)" "y2 = (q2, r2)" "y3 = (q3, r3)" "y4 = (q4, r4)"
    by (cases y1; cases y2; cases y3; cases y4) blast
  from group_consumes [OF 1 [unfolded y]] obtain g1 where g1: "s = g1 @ 46 # r1" "octet_group g1"
    by blast
  from group_consumes [OF 2 [unfolded y]] obtain g2 where g2: "r1 = g2 @ 46 # r2" "octet_group g2"
    by blast
  from group_consumes [OF 3 [unfolded y]] obtain g3 where g3: "r2 = g3 @ 46 # r3" "octet_group g3"
    by blast
  from octet_consumes [OF 4 [unfolded y]] 5 y obtain g4 where g4: "r3 = g4" "octet_group g4"
    by auto
  show ?thesis using g1 g2 g3 g4 by auto
qed

lemma digit_group_no_dot: "digit_group g \<Longrightarrow> 46 \<notin> set g"
  by (auto simp: digit_group_def list_all_iff is_digit_def in_range_def)

lemma split_on_plain: "c \<notin> set g \<Longrightarrow> split_on c g = [g]"
  by (induction g) auto

lemma split_on_sep: "c \<notin> set g \<Longrightarrow> split_on c (g @ c # rest) = g # split_on c rest"
  by (induction g) auto

lemma ip_is_dotted_quad:
  assumes "regex_test PATTERNS_IP_V4 s"
  shows "is_dotted_quad s"
proof -
  from ip_shape [OF assms] obtain g1 g2 g3 g4 where
    s: "s = g1 @ 46 # g2 @ 46 # g3 @ 46 # g4"
    and g: "octet_group g1" "octet_group g2" "octet_group g3" "octet_group g4"
    by blast
  from g have d: "digit_group g1" "digit_group g2" "digit_group g3" "digit_group g4"
    by (simp_all add: octet_group_def)
  have "split_on 46 s = [g1, g2, g3, g4]"
    unfolding s using d by (simp add: split_on_sep split_on_plain digit_group_no_dot)
  then show ?thesis using g by (simp add: is_dotted_quad_def)
qed

lemma group_accepts:
  "n \<le> 255 \<Longrightarrow> (Some 46, r) \<in> set (rmatch (Seq octet (Seq (ch 46) Eps)) (p, dec n @ 46 # r))"
  unfolding group_unfold using octet_accepts [of n "46 # r" p] by blast

lemma ip_accepts:
  assumes "a \<le> 255" "b \<le> 255" "c \<le> 255" "d \<le> 255"
  shows "regex_test PATTERNS_IP_V4 (dotted_quad a b c d)"
proof -
  let ?G = "Seq octet (Seq (ch 46) Eps)"
  let ?s3 = "dec d" and ?s2 = "dec c @ 46 # dec d" and ?s1 = "dec b @ 46 # dec c @ 46 # dec d"
  have eps: "\<And>st. st \<in> set (rmatch Eps st)" by simp
  have eol: "\<And>q. (q, []) \<in> set (rmatch (Seq Eol Eps) (q, []))" by simp
  have 1: "(Some 46, ?s1) \<in> set (rmatch ?G (None, dec a @ 46 # ?s1))"
    using assms(1) by (rule group_accepts)
  have 2: "(Some 46, ?s2) \<in> set (rmatch ?G (Some 46, dec b @ 46 # ?s2))"
    using assms(2) by (rule group_accepts)
  have 3: "(Some 46, ?s3) \<in> set (rmatch ?G (Some 46, dec c @ 46 # ?s3))"
    using assms(3) by (rule group_accepts)
  have 4: "(Some (last (dec d)), []) \<in> set (rmatch octet (Some 46, dec d))"
    using octet_accepts [OF assms(4), of "[]" "Some 46"] by simp
  have e: "(Some (last (dec d)), []) \<in> set (rmatch (Seq octet (Seq Eol Eps)) (Some 46, ?s3))"
    by (rule in_SeqI [OF 4 eol])
  have "(Some 46, ?s3) \<in> set (rmatch (Seq ?G Eps) (Some 46, ?s2))"
    by (rule in_SeqI [OF 3 eps])
  then have "(Some 46, ?s3) \<in> set (rmatch (Seq ?G (Seq ?G Eps)) (Some 46, ?s1))"
    by (rule in_SeqI [OF 2])
  then have "(Some 46, ?s3) \<in> set (rmatch (Seq ?G (Seq ?G (Seq ?G Eps))) (None, dec a @ 46 # ?s1))"
    by (rule in_SeqI [OF 1])
  then have "(Some (last (dec d)), []) \<in>
        set (rmatch (Seq (Seq ?G (Seq ?G (Seq ?G Eps))) (Seq octet (Seq Eol Eps)))
               (None, dec a @ 46 # ?s1))"
    using e by (rule in_SeqI)
  then have "rmatch (Seq (Seq ?G (Seq ?G (Seq ?G Eps))) (Seq octet (Seq Eol Eps)))
               (None, dec a @ 46 # ?s1) \<noteq> []"
    by (rule in_set_nonempty)
  moreover have dq: "dotted_quad a b c d = dec a @ 46 # ?s1"
    by (simp add: dotted_quad_def)
  ultimately show ?thesis
    unfolding IP_V4_unfold regex_test_Bol dq by simp
qed

section \<open>Properties of the validation layer\<close>

lemma detectAttackVectors_PASSWORD: "detectAttackVectors c PASSWORD = Inr ()"
  by (simp add: detectAttackVectors_def)

lemma detectAttackVectors_hit:
  "ctx \<noteq> PASSWORD \<Longrightarrow> list_ex (\<lambda>r. regex_test r c) ATTACK_VECTORS \<Longrightarrow>
   detectAttackVectors c ctx =
     Inl (SecurityException (js ''Malicious Pattern Detected: '' @ context_name ctx))"
  by (simp add: detectAttackVectors_def)

lemma detectAttackVectors_miss:
  "\<not> list_ex (\<lambda>r. regex_test r c) ATTACK_VECTORS \<Longrightarrow> detectAttackVectors c ctx = Inr ()"
  by (simp add: detectAttackVectors_def)

lemma validate_empty:
  "canonicalize P x = [] \<Longrightarrow> ctx \<noteq> SAFE_TEXT \<Longrightarrow>
   validate P x ctx f S =
     (Inl (SecurityException (f @ js '' cannot be empty or whitespace only.'')), None)"
  by (simp add: validate_def)

lemma validate_attack:
  "canonicalize P x \<noteq> [] \<or> ctx = SAFE_TEXT \<Longrightarrow>
   detectAttackVectors (canonicalize P x) ctx = Inl e \<Longrightarrow>
   validate P x ctx f S = (Inl e, None)"
  by (auto simp: validate_def Let_def)

lemma validate_schema_failure:
  "canonicalize P x \<noteq> [] \<or> ctx = SAFE_TEXT \<Longrightarrow>
   detectAttackVectors (canonicalize P x) ctx = Inr () \<Longrightarrow>
   \<not> isValid P ctx (canonicalize P x) \<Longrightarrow>
   validate P x ctx f S =
     (Inl (SecurityException
             (js ''Security Policy Violation: '' @ f @
              js '' format is invalid or contains prohibited characters.'')),
      logViolation P (canonicalize P x) ctx f S)"
  by (auto simp: validate_def Let_def)

lemma validate_accept:
  "canonicalize P x \<noteq> [] \<or> ctx = SAFE_TEXT \<Longrightarrow>
   detectAttackVectors (canonicalize P x) ctx = Inr () \<Longrightarrow>
   isValid P ctx (canonicalize P x) \<Longrightarrow>
   validate P x ctx f S =
     (Inr (if ctx = MASTER_KEY \<or> ctx = SERIAL then toUpperCase P (canonicalize P x)
           else canonicalize P x), None)"
  by (auto simp: validate_def Let_def)

lemma no_attack_in_empty: "\<not> list_ex (\<lambda>r. regex_test r []) ATTACK_VECTORS"
  by (rule no_attack_in_digits_and_dots) simp

lemma SAFE_TEXT_rejects_empty: "\<not> isValid P SAFE_TEXT []"
  by (simp add: PATTERNS_SAFE_TEXT_def anchored_class)

lemma attack_string_detected:
  assumes "sig \<in> set attack_strings" and "sublist sig c"
  shows "list_ex (\<lambda>r. regex_test r c) ATTACK_VECTORS"
proof -
  have trans: "\<And>w. sublist w sig \<Longrightarrow> sublist w c"
    using assms(2) by (rule sublist_order.order_trans [rotated])
  have "regex_test (lit (js ''--'')) c \<or> regex_test (lit (js '';'')) c \<or>
        regex_test (liti (js ''<script'')) c \<or> regex_test (lit (js ''../'')) c"
  proof -
    from assms(1) consider "sig = 39 # js '' OR 1=1 --''" | "sig = js ''; rm -rf''"
      | "sig = js ''<script>''" | "sig = js ''../../etc/passwd''"
      by (auto simp: attack_strings_def)
    then show ?thesis
    proof cases
      case 1
      then have "sublist (js ''--'') sig" by (simp add: js_def sublist_code prefix_code)
      then show ?thesis by (simp add: regex_test_lit trans)
    next
      case 2
      then have "sublist (js '';'') sig" by (simp add: js_def sublist_code prefix_code)
      then show ?thesis by (simp add: regex_test_lit trans)
    next
      case 3
      then have "sublist (js ''<script'') sig" by (simp add: js_def sublist_code prefix_code)
      then show ?thesis by (simp add: regex_test_liti trans)
    next
      case 4
      then have "sublist (js ''../'') sig" by (simp add: js_def sublist_code prefix_code)
      then show ?thesis by (simp add: regex_test_lit trans)
    qed
  qed
  then show ?thesis
    unfolding ATTACK_VECTORS_def list_ex_Cons list_ex_Nil by blast
qed

lemma attack_string_length: "sig \<in> set attack_strings \<Longrightarrow> 8 \<le> length sig"
  by (auto simp: attack_strings_def js_def)

text \<open>
  C4. If the canonical form of the input contains one of the four attack strings, then
  in every context but PASSWORD \<open>validate\<close> raises the malicious-pattern exception (and
  leaves the ledger alone, with nothing pending on it); in the PASSWORD context the scan
  is skipped, and the input is accepted as soon as its canonical form is printable ASCII
  (it then has at least the eight characters of the attack string).
\<close>

theorem attack_strings_rejected:
  assumes "sig \<in> set attack_strings"
    and "sublist sig (canonicalize P input)"
  shows "(ctx \<noteq> PASSWORD \<longrightarrow>
            validate P input ctx fieldName S =
              (Inl (SecurityException (js ''Malicious Pattern Detected: '' @ context_name ctx)), None)) \<and>
         (ctx = PASSWORD \<and> list_all (in_range 32 126) (canonicalize P input) \<longrightarrow>
            validate P input ctx fieldName S = (Inr (canonicalize P input), None))"
proof (intro conjI impI)
  have len: "8 \<le> length (canonicalize P input)"
    using attack_string_length [OF assms(1)] sublist_length_le [OF assms(2)] by simp
  then have ne: "canonicalize P input \<noteq> []" by auto
  {
    assume "ctx \<noteq> PASSWORD"
    then have "detectAttackVectors (canonicalize P input) ctx =
        Inl (SecurityException (js ''Malicious Pattern Detected: '' @ context_name ctx))"
      using attack_string_detected [OF assms] by (rule detectAttackVectors_hit)
    with ne show "validate P input ctx fieldName S =
        (Inl (SecurityException (js ''Malicious Pattern Detected: '' @ context_name ctx)), None)"
      by (simp add: validate_attack)
  }
  {
    assume pw: "ctx = PASSWORD \<and> list_all (in_range 32 126) (canonicalize P input)"
    then have "isValid P ctx (canonicalize P input)"
      using len ne by (simp add: PRINTABLE_ASCII_def anchored_class)
    then show "validate P input ctx fieldName S = (Inr (canonicalize P input), None)"
      using pw ne validate_accept [of P input ctx fieldName S]
      by (simp add: detectAttackVectors_PASSWORD)
  }
qed

lemma dropWhile_id: "\<forall>c \<in> set s. \<not> Q c \<Longrightarrow> dropWhile Q s = s"
  by (cases s) auto

lemma trim_id: "\<forall>c \<in> set s. \<not> is_white_space c \<Longrightarrow> trim s = s"
  by (simp add: trim_def dropWhile_id)

lemma canonicalize_id:
  assumes "normalize_nfkc P s = s"
    and "\<forall>c \<in> set s. \<not> is_control c \<and> \<not> is_white_space c"
  shows "canonicalize P s = s"
  using assms by (simp add: canonicalize_def trim_id filter_id_conv)

lemma canonicalize_small: "canonicalize (small_platform known) s =
   (if s = [] then [] else trim (filter (\<lambda>c. \<not> is_control c) s))"
  by (simp add: canonicalize_def small_platform_def)

theorem attack_strings_rejected_witness:
  "validate (small_platform []) (js ''<script>alert(1)'') FILENAME (js ''Name'')
     new_SecureStorage =
     (Inl (SecurityException (js ''Malicious Pattern Detected: '' @ context_name FILENAME)),
      None) \<and>
   validate (small_platform []) (js ''<script>alert(1)'') PASSWORD (js ''Name'')
     new_SecureStorage =
     (Inr (canonicalize (small_platform []) (js ''<script>alert(1)'')), None)"
proof -
  let ?P = "small_platform []"
  let ?x = "js ''<script>alert(1)''"
  have c: "canonicalize ?P ?x = ?x"
    by (rule canonicalize_id) (simp_all add: small_platform_def js_def char_defs)
  have 1: "js ''<script>'' \<in> set attack_strings"
    by (simp add: attack_strings_def)
  have 2: "sublist (js ''<script>'') (canonicalize ?P ?x)"
    unfolding c by (simp add: js_def sublist_code prefix_code)
  have 3: "list_all (in_range 32 126) (canonicalize ?P ?x)"
    unfolding c by (simp add: js_def in_range_def)
  show ?thesis
    using attack_strings_rejected [OF 1 2, of FILENAME "js ''Name''" new_SecureStorage]
      attack_strings_rejected [OF 1 2, of PASSWORD "js ''Name''" new_SecureStorage] 3
    by simp
qed

text \<open>
  C10. Whatever the context, an input whose canonical form is empty is rejected: by the
  explicit empty check in every context but SAFE_TEXT, and in SAFE_TEXT by the schema,
  whose pattern needs at least one character.
\<close>

theorem empty_input_rejected:
  assumes "canonicalize P input = []"
  shows "fst (validate P input ctx fieldName S) =
           Inl (SecurityException
                  (if ctx = SAFE_TEXT
                   then js ''Security Policy Violation: '' @ fieldName @
                        js '' format is invalid or contains prohibited characters.''
                   else fieldName @ js '' cannot be empty or whitespace only.''))"
proof (cases "ctx = SAFE_TEXT")
  case True
  have "detectAttackVectors (canonicalize P input) ctx = Inr ()"
    unfolding assms using no_attack_in_empty by (rule detectAttackVectors_miss)
  moreover have "\<not> isValid P ctx (canonicalize P input)"
    unfolding assms True by (rule SAFE_TEXT_rejects_empty)
  ultimately show ?thesis
    using True validate_schema_failure [of P input ctx fieldName S] by simp
next
  case False
  then show ?thesis using assms by (simp add: validate_empty)
qed

theorem empty_input_rejected_witness:
  "fst (validate (small_platform []) (js ''   '') SAFE_TEXT (js ''Note'')
          new_SecureStorage) =
     Inl (SecurityException
            (js ''Security Policy Violation: '' @ js ''Note'' @
             js '' format is invalid or contains prohibited characters.'')) \<and>
   fst (validate (small_platform []) [] PORT (js ''Port'') new_SecureStorage) =
     Inl (SecurityException (js ''Port'' @ js '' cannot be empty or whitespace only.''))"
proof -
  have 1: "canonicalize (small_platform []) (js ''   '') = []"
    by (simp add: canonicalize_small trim_def js_def char_defs)
  have 2: "canonicalize (small_platform []) [] = []"
    by (simp add: canonicalize_small)
  show ?thesis
    using empty_input_rejected [OF 1, of SAFE_TEXT "js ''Note''" new_SecureStorage]
      empty_input_rejected [OF 2, of PORT "js ''Port''" new_SecureStorage]
    by simp
qed

lemma dotted_quad_chars: "\<forall>ch \<in> set (dotted_quad a b c d). is_digit ch \<or> ch = 46"
  using dec_digits [of a] dec_digits [of b] dec_digits [of c] dec_digits [of d]
  by (auto simp: dotted_quad_def list_all_iff)

lemma dotted_quad_nonempty: "dotted_quad a b c d \<noteq> []"
  by (simp add: dotted_quad_def)

lemma ip_accepted:
  assumes oct: "a \<le> 255" "b \<le> 255" "c \<le> 255" "d \<le> 255"
    and x: "x = dotted_quad a b c d"
    and nfkc: "normalize_nfkc P x = x"
    and meta: "x \<noteq> js ''0.0.0.0''" "x \<noteq> js ''255.255.255.255''"
  shows "validate P x IP fieldName S = (Inr x, None)"
proof -
  have chars: "\<forall>ch \<in> set x. is_digit ch \<or> ch = 46"
    unfolding x by (rule dotted_quad_chars)
  then have "\<forall>ch \<in> set x. \<not> is_control ch \<and> \<not> is_white_space ch"
    by (auto simp: char_defs)
  with nfkc have can: "canonicalize P x = x" by (rule canonicalize_id)
  have ne: "x \<noteq> []" unfolding x by (rule dotted_quad_nonempty)
  have scan: "detectAttackVectors (canonicalize P x) IP = Inr ()"
    unfolding can using chars
    by (intro detectAttackVectors_miss no_attack_in_digits_and_dots)
  have "regex_test PATTERNS_IP_V4 x"
    unfolding x using oct by (rule ip_accepts)
  then have "isValid P IP (canonicalize P x)"
    unfolding can using meta by simp
  then show ?thesis
    using validate_accept [of P x IP fieldName S] ne scan by (simp add: can)
qed

lemma detectAttackVectors_error:
  "detectAttackVectors s ctx = Inl e \<Longrightarrow> \<exists>msg. e = SecurityException msg"
  by (auto simp: detectAttackVectors_def split: if_splits)

lemma validate_raises:
  assumes "\<not> isValid P ctx (canonicalize P x)"
  shows "\<exists>msg. fst (validate P x ctx fieldName S) = Inl (SecurityException msg)"
proof (cases "canonicalize P x = [] \<and> ctx \<noteq> SAFE_TEXT")
  case True
  then show ?thesis by (simp add: validate_empty)
next
  case False
  then have ne: "canonicalize P x \<noteq> [] \<or> ctx = SAFE_TEXT" by blast
  show ?thesis
  proof (cases "detectAttackVectors (canonicalize P x) ctx")
    case (Inl e)
    then show ?thesis
      using validate_attack [OF ne Inl, of fieldName S] detectAttackVectors_error [OF Inl]
      by auto
  next
    case (Inr u)
    then show ?thesis
      using validate_schema_failure [OF ne _ assms, of fieldName S] by simp
  qed
qed

lemma ip_rejected:
  assumes "canonicalize P y = js ''0.0.0.0'' \<or> canonicalize P y = js ''255.255.255.255'' \<or>
           \<not> is_dotted_quad (canonicalize P y)"
  shows "\<not> isValid P IP (canonicalize P y)"
  using assms ip_is_dotted_quad [of "canonicalize P y"] by auto

text \<open>
  C3 (as amended). \<open>validate(x, IP, f)\<close> returns \<open>x\<close> unchanged, and leaves the ledger
  alone with nothing pending on it, for every dotted quad \<open>x\<close> of four octets from 0 to
  255 written in decimal without leading zeros, of whatever range, other than \<open>0.0.0.0\<close>
  and \<open>255.255.255.255\<close> (NFKC leaves such an ASCII string unchanged). It raises a
  SecurityException for every input whose canonical form is \<open>0.0.0.0\<close> or
  \<open>255.255.255.255\<close>, or is not made of four groups separated by dots, each group one
  to three digits that denote a number from 0 to 255.
\<close>

theorem ip_validation:
  "(a \<le> 255 \<and> b \<le> 255 \<and> c \<le> 255 \<and> d \<le> 255 \<and> x = dotted_quad a b c d \<and>
    normalize_nfkc P x = x \<and> x \<noteq> js ''0.0.0.0'' \<and> x \<noteq> js ''255.255.255.255'' \<longrightarrow>
      validate P x IP fieldName S = (Inr x, None)) \<and>
   (canonicalize P y = js ''0.0.0.0'' \<or> canonicalize P y = js ''255.255.255.255'' \<or>
    \<not> is_dotted_quad (canonicalize P y) \<longrightarrow>
      (\<exists>msg. fst (validate P y IP fieldName S) = Inl (SecurityException msg)))"
  using ip_accepted [of a b c d x P fieldName S]
    validate_raises [OF ip_rejected, of P y fieldName S]
  by blast

lemma canonicalize_ascii_small:
  "\<forall>ch \<in> set s. \<not> is_control ch \<and> \<not> is_white_space ch \<Longrightarrow>
   canonicalize (small_platform known) s = s"
  by (rule canonicalize_id) (simp_all add: small_platform_def)

theorem ip_validation_witness:
  "validate (small_platform []) (dotted_quad 192 168 1 10) IP (js ''Host'')
     new_SecureStorage = (Inr (dotted_quad 192 168 1 10), None) \<and>
   (\<exists>msg. fst (validate (small_platform []) (js ''0.0.0.0'') IP (js ''Host'')
                  new_SecureStorage) = Inl (SecurityException msg)) \<and>
   (\<exists>msg. fst (validate (small_platform []) (js ''example.com'') IP (js ''Host'')
                  new_SecureStorage) = Inl (SecurityException msg)) \<and>
   (\<exists>msg. fst (validate (small_platform []) (js ''256.1.1.1'') IP (js ''Host'')
                  new_SecureStorage) = Inl (SecurityException msg)) \<and>
   (\<exists>msg. fst (validate (small_platform []) (js ''999.999.999.999'') IP (js ''Host'')
                  new_SecureStorage) = Inl (SecurityException msg))"
proof -
  let ?P = "small_platform []"
  have q: "dotted_quad 192 168 1 10 = js ''192.168.1.10''"
    by (simp add: dotted_quad_def dec.simps js_def)
  have 1: "normalize_nfkc ?P (dotted_quad 192 168 1 10) = dotted_quad 192 168 1 10"
    by (simp add: small_platform_def)
  have 2: "dotted_quad 192 168 1 10 \<noteq> js ''0.0.0.0''"
    "dotted_quad 192 168 1 10 \<noteq> js ''255.255.255.255''"
    unfolding q by (simp_all add: js_def)
  have 3: "canonicalize ?P (js ''0.0.0.0'') = js ''0.0.0.0''"
    by (rule canonicalize_ascii_small) (simp add: js_def char_defs)
  have "canonicalize ?P (js ''example.com'') = js ''example.com''"
    by (rule canonicalize_ascii_small) (simp add: js_def char_defs)
  then have 4: "\<not> is_dotted_quad (canonicalize ?P (js ''example.com''))"
    by (simp add: is_dotted_quad_def js_def)
  have "canonicalize ?P (js ''256.1.1.1'') = js ''256.1.1.1''"
    by (rule canonicalize_ascii_small) (simp add: js_def char_defs)
  then have 5: "\<not> is_dotted_quad (canonicalize ?P (js ''256.1.1.1''))"
    by (simp add: is_dotted_quad_def octet_group_def js_def)
  have "canonicalize ?P (js ''999.999.999.999'') = js ''999.999.999.999''"
    by (rule canonicalize_ascii_small) (simp add: js_def char_defs)
  then have 6: "\<not> is_dotted_quad (canonicalize ?P (js ''999.999.999.999''))"
    by (simp add: is_dotted_quad_def octet_group_def js_def)
  show ?thesis
    using ip_validation [of 192 168 1 10 "dotted_quad 192 168 1 10" ?P "js ''Host''"
        new_SecureStorage "js ''0.0.0.0''"]
      ip_validation [of 192 168 1 10 "dotted_quad 192 168 1 10" ?P "js ''Host''"
        new_SecureStorage "js ''example.com''"]
      ip_validation [of 192 168 1 10 "dotted_quad 192 168 1 10" ?P "js ''Host''"
        new_SecureStorage "js ''256.1.1.1''"]
      ip_validation [of 192 168 1 10 "dotted_quad 192 168 1 10" ?P "js ''Host''"
        new_SecureStorage "js ''999.999.999.999''"]
      1 2 3 4 5 6
    by simp
qed

text \<open>
  C3, the claim as stated, fails: the public address \<open>8.8.8.8\<close> is accepted and returned
  unchanged; the validator has no notion of address ranges.
\<close>

theorem public_ip_accepted:
  "fst (validate (small_platform []) (js ''8.8.8.8'') IP (js ''Host'')
          new_SecureStorage) = Inr (js ''8.8.8.8'')"
proof -
  have q: "dotted_quad 8 8 8 8 = js ''8.8.8.8''"
    by (simp add: dotted_quad_def dec.simps js_def)
  have "validate (small_platform []) (js ''8.8.8.8'') IP (js ''Host'')
          new_SecureStorage = (Inr (js ''8.8.8.8''), None)"
    by (rule ip_accepted [of 8 8 8 8]) (simp_all add: q small_platform_def, simp_all add: js_def)
  then show ?thesis by simp
qed

lemma demo_ledger_unlocked:
  "ledger_inv demo_ledger \<and> (\<exists>key. encryptionKey demo_ledger = Some key)"
proof -
  have "ledger_inv demo_ledger"
    unfolding demo_ledger_def by (intro ledger_inv_run ledger_inv_new)
  then show ?thesis using demo_ledger_replay by blast
qed

text \<open>
  What \<open>logViolation\<close> does. On an unlocked ledger the call leaves an \<open>append\<close> of the
  violation record pending, which holds the last block of the chain as it was at the
  call. The rest of the call never raises, whatever \<open>append\<close> does. The fragment it
  records is eight asterisks for the PASSWORD and MASTER_KEY contexts and otherwise the
  first fifty characters of the input, followed by three dots when the input is longer.
  When the pending \<open>append\<close> goes on before anything else touches the ledger, it does
  what an awaited \<open>append\<close> of the violation record does, and the record becomes the
  payload of the new last block; a log that completes before the next call is thus one
  more awaited call of a run.
\<close>

lemma logViolation_pending:
  assumes "encryptionKey S = Some key" and "chain S \<noteq> []"
  shows "logViolation P input ctx fieldName S =
           Some \<lparr>held_key = key, held_prevBlock = Some (last (chain S)),
                 held_dataString = dataString P (violation_record input ctx fieldName)\<rparr>"
  using assms by (simp add: logViolation_def append_begin_def getKey_Some)

lemma logViolation_swallows: "fst (logViolation_resume P E a S) = Inr ()"
  by (simp add: logViolation_resume_def split: prod.splits sum.splits)

lemma maskedInput_cases:
  "maskedInput input PASSWORD = js ''********''"
  "maskedInput input MASTER_KEY = js ''********''"
  "ctx \<noteq> PASSWORD \<Longrightarrow> ctx \<noteq> MASTER_KEY \<Longrightarrow> length input \<le> 50 \<Longrightarrow>
     maskedInput input ctx = input"
  "ctx \<noteq> PASSWORD \<Longrightarrow> ctx \<noteq> MASTER_KEY \<Longrightarrow> 50 < length input \<Longrightarrow>
     maskedInput input ctx = take 50 input @ js ''...''"
  by (simp_all add: maskedInput_def)

lemma logViolation_resume_at_once:
  "logViolation P input ctx fieldName S = Some a \<Longrightarrow>
   snd (logViolation_resume P E a S) =
     snd (append_block P E (violation_record input ctx fieldName) S)"
  by (auto simp: logViolation_def logViolation_resume_snd append_block_def split: sum.splits)

lemma validate_pending:
  "snd (validate P x ctx fieldName S) = Some a \<Longrightarrow>
   logViolation P (canonicalize P x) ctx fieldName S = Some a"
  by (auto simp: validate_def Let_def split: if_splits sum.splits)

lemma schema_failure_recorded:
  assumes inv: "ledger_inv S" and key: "encryptionKey S = Some key"
    and ok: "cipher_ok P"
    and rd: "readable P (violation_record (canonicalize P x) ctx fieldName)"
    and ne: "canonicalize P x \<noteq> [] \<or> ctx = SAFE_TEXT"
    and scan: "detectAttackVectors (canonicalize P x) ctx = Inr ()"
    and bad: "\<not> isValid P ctx (canonicalize P x)"
  shows "\<exists>a. validate P x ctx fieldName S =
                (Inl (SecurityException
                        (js ''Security Policy Violation: '' @ fieldName @
                         js '' format is invalid or contains prohibited characters.'')),
                 Some a) \<and>
              length (chain (snd (logViolation_resume P E a S))) = length (chain S) + 1 \<and>
              decrypt P (snd (logViolation_resume P E a S)) (int (length (chain S))) =
                Inr (violation_record (canonicalize P x) ctx fieldName)"
proof -
  let ?v = "violation_record (canonicalize P x) ctx fieldName"
  from inv key have nonempty: "chain S \<noteq> []" by (auto simp: ledger_inv_def)
  from logViolation_pending [OF key nonempty, of P "canonicalize P x" ctx fieldName]
  obtain a where a: "logViolation P (canonicalize P x) ctx fieldName S = Some a"
    by blast
  obtain r S' where app: "append_block P E ?v S = (r, S')"
    by (cases "append_block P E ?v S")
  have S': "snd (logViolation_resume P E a S) = S'"
    using logViolation_resume_at_once [OF a, of E] app by simp
  have "length (chain S') = length (chain S) + 1"
    using append_block_effect [OF inv key app] by auto
  moreover have "decrypt P S' (int (length (chain S))) = Inr ?v"
    by (rule decrypt_appended [OF inv key app ok rd])
  ultimately show ?thesis
    using validate_schema_failure [OF ne scan bad, of fieldName S] a S' by simp
qed

text \<open>
  C5 fails on the code. On the unlocked demo ledger, an input that matches an attack
  signature is rejected and nothing is left pending on the ledger: no violation record
  is ever appended. A schema failure, by contrast, leaves an \<open>append\<close> pending that,
  when it goes on, adds one block whose payload is the violation record.
\<close>

theorem attack_match_not_recorded:
  "validate demo_platform (js ''<script>alert(1)</script>'') SAFE_TEXT (js ''Name'') demo_ledger =
     (Inl (SecurityException (js ''Malicious Pattern Detected: '' @ context_name SAFE_TEXT)),
      None) \<and>
   (\<exists>a. validate demo_platform (js ''70000'') PORT (js ''Port'') demo_ledger =
           (Inl (SecurityException
                   (js ''Security Policy Violation: '' @ js ''Port'' @
                    js '' format is invalid or contains prohibited characters.'')),
            Some a) \<and>
         getChainLength (snd (logViolation_resume demo_platform (small_env 9) a demo_ledger)) =
           getChainLength demo_ledger + 1 \<and>
         decrypt demo_platform (snd (logViolation_resume demo_platform (small_env 9) a demo_ledger))
             (int (getChainLength demo_ledger)) =
           Inr (violation_record (js ''70000'') PORT (js ''Port'')))"
proof -
  let ?x = "js ''<script>alert(1)</script>''"
  let ?y = "js ''70000''"
  have cx: "canonicalize demo_platform ?x = ?x"
    unfolding demo_platform_def
    by (rule canonicalize_ascii_small) (simp add: js_def char_defs)
  have cy: "canonicalize demo_platform ?y = ?y"
    unfolding demo_platform_def
    by (rule canonicalize_ascii_small) (simp add: js_def char_defs)
  have "js ''<script>'' \<in> set attack_strings"
    by (simp add: attack_strings_def)
  moreover have "sublist (js ''<script>'') ?x"
    by (simp add: js_def sublist_code prefix_code)
  ultimately have "list_ex (\<lambda>r. regex_test r ?x) ATTACK_VECTORS"
    by (rule attack_string_detected)
  then have "detectAttackVectors (canonicalize demo_platform ?x) SAFE_TEXT =
      Inl (SecurityException (js ''Malicious Pattern Detected: '' @ context_name SAFE_TEXT))"
    unfolding cx by (intro detectAttackVectors_hit) simp_all
  then have 1: "validate demo_platform ?x SAFE_TEXT (js ''Name'') demo_ledger =
     (Inl (SecurityException (js ''Malicious Pattern Detected: '' @ context_name SAFE_TEXT)),
      None)"
    by (intro validate_attack) simp_all
  have ne: "canonicalize demo_platform ?y \<noteq> [] \<or> PORT = SAFE_TEXT"
    unfolding cy by (simp add: js_def)
  have "\<forall>ch \<in> set ?y. is_digit ch \<or> ch = 46"
    by (simp add: js_def char_defs)
  then have scan: "detectAttackVectors (canonicalize demo_platform ?y) PORT = Inr ()"
    unfolding cy by (intro detectAttackVectors_miss no_attack_in_digits_and_dots)
  have "parseInt10 ?y = 70000"
    by (simp add: parseInt10_def js_def)
  then have bad: "\<not> isValid demo_platform PORT (canonicalize demo_platform ?y)"
    unfolding cy by simp
  from demo_ledger_unlocked obtain key where
    inv: "ledger_inv demo_ledger" and key: "encryptionKey demo_ledger = Some key"
    by blast
  have ok: "cipher_ok demo_platform"
    unfolding demo_platform_def by (rule cipher_ok_small)
  have rd: "readable demo_platform (violation_record (canonicalize demo_platform ?y) PORT (js ''Port''))"
    unfolding cy by (rule readable_demo(8))
  have 2: "\<exists>a. validate demo_platform ?y PORT (js ''Port'') demo_ledger =
           (Inl (SecurityException
                   (js ''Security Policy Violation: '' @ js ''Port'' @
                    js '' format is invalid or contains prohibited characters.'')),
            Some a) \<and>
         getChainLength (snd (logViolation_resume demo_platform (small_env 9) a demo_ledger)) =
           getChainLength demo_ledger + 1 \<and>
         decrypt demo_platform (snd (logViolation_resume demo_platform (small_env 9) a demo_ledger))
             (int (getChainLength demo_ledger)) =
           Inr (violation_record ?y PORT (js ''Port''))"
    using schema_failure_recorded [OF inv key ok rd ne scan bad, where E = "small_env 9"]
    unfolding cy getChainLength_def by simp
  from 1 2 show ?thesis by blast
qed

text \<open>
  The pending \<open>append\<close> of a violation record holds the last block that the chain had
  when \<open>validate\<close> was called. If another \<open>append\<close> is made and awaited before the
  pending one goes on, both take their index and their hash link from that same block:
  the chain gets two blocks with the same index, and the later one does not name its
  predecessor. The invariants of the chain are those of calls that are awaited one by
  one; \<open>run\<close> describes these.
\<close>

lemma append_resume_effect:
  assumes "held_prevBlock a = Some p"
  shows "\<exists>b. append_resume P E a S =
           (Inr b,
            S\<lparr>storage := Map_set (index p + 1)
                 (getRandomValues E 12 @
                  aes_gcm_encrypt P (held_key a) (getRandomValues E 12)
                    (utf8_encode P (held_dataString a)))
                 (storage S),
              chain := chain S @ [b]\<rparr>) \<and>
         index b = index p + 1 \<and>
         previousHash b = sha256 P (json_stringify P (block_json p))"
  using assms by (simp add: append_resume_def append_store_def append_push_def Let_def)

lemma pending_log_repeats_index:
  assumes inv: "ledger_inv S" and key: "encryptionKey S = Some key"
    and v: "snd (validate P x ctx fieldName S) = Some a"
    and app: "append_block P E data S = (r, S1)"
    and log: "logViolation_resume P E' a S1 = (u, S2)"
  shows "\<exists>b b'. r = Inr b \<and> chain S2 = chain S @ [b, b'] \<and>
           index b = int (length (chain S)) \<and> index b' = int (length (chain S)) \<and>
           previousHash b' = sha256 P (json_stringify P (block_json (last (chain S)))) \<and>
           previousHash b' = previousHash b"
proof -
  from inv key have nonempty: "chain S \<noteq> []" by (auto simp: ledger_inv_def)
  have "logViolation P (canonicalize P x) ctx fieldName S = Some a"
    using v by (rule validate_pending)
  then have p: "held_prevBlock a = Some (last (chain S))"
    unfolding logViolation_pending [OF key nonempty] by auto
  from append_block_unlocked [OF key nonempty, of P E data] app
  obtain b where b: "r = Inr b" "chain S1 = chain S @ [b]"
    "index b = index (last (chain S)) + 1"
    "previousHash b = sha256 P (json_stringify P (block_json (last (chain S))))"
    by auto
  from append_resume_effect [OF p, of P E' S1] obtain b' where
    b': "append_resume P E' a S1 = (Inr b', snd (append_resume P E' a S1))"
    "chain (snd (append_resume P E' a S1)) = chain S1 @ [b']"
    "index b' = index (last (chain S)) + 1"
    "previousHash b' = sha256 P (json_stringify P (block_json (last (chain S))))"
    by auto
  have "S2 = snd (append_resume P E' a S1)"
    using log logViolation_resume_snd [of P E' a S1] by simp
  then show ?thesis
    using b b' ledger_inv_last [OF inv nonempty] by simp
qed

text \<open>
  The IPv4 pattern also accepts octets written with leading zeros, although its comment
  says it does not; such an address passes \<open>validate\<close>.
\<close>

lemma leading_zero_octets_match: "regex_test PATTERNS_IP_V4 (js ''192.168.001.001'')"
  by code_simp

lemma leading_zero_octets_accepted:
  "validate (small_platform []) (js ''192.168.001.001'') IP (js ''Host'')
     new_SecureStorage = (Inr (js ''192.168.001.001''), None)"
proof -
  let ?x = "js ''192.168.001.001''"
  have chars: "\<forall>ch \<in> set ?x. is_digit ch \<or> ch = 46"
    by (simp add: js_def char_defs)
  have can: "canonicalize (small_platform []) ?x = ?x"
    by (rule canonicalize_ascii_small) (simp add: js_def char_defs)
  have scan: "detectAttackVectors (canonicalize (small_platform []) ?x) IP = Inr ()"
    unfolding can using chars
    by (intro detectAttackVectors_miss no_attack_in_digits_and_dots)
  have "?x \<noteq> js ''0.0.0.0''" "?x \<noteq> js ''255.255.255.255''"
    by (simp_all add: js_def)
  then have "isValid (small_platform []) IP (canonicalize (small_platform []) ?x)"
    unfolding can using leading_zero_octets_match by simp
  moreover have "?x \<noteq> []" by (simp add: js_def)
  ultimately show ?thesis
    using validate_accept [of "small_platform []" ?x IP "js ''Host''" new_SecureStorage] scan
    by (simp add: can)
qed

end
